theory Spec2Isabelle
  imports Complex_Main "HOL-Library.Word" "HOL-Library.Sublist"
begin

section \<open>The UART receive ring buffer (lora.c)\<close>

text \<open>
  \<^verbatim>\<open>#define UART_RX_BUFFER_SIZE 512\<close> and the struct \<^verbatim>\<open>uart_rx_buffer_t\<close>:
  a \<^verbatim>\<open>char buffer[UART_RX_BUFFER_SIZE]\<close>, two \<^verbatim>\<open>uint16_t\<close> indices and the overflow flag.
  The indices are 16-bit words; the C expressions on them are evaluated in \<^verbatim>\<open>int\<close>
  (integer promotion), so they are written on \<open>unat\<close> and converted back.
\<close>

definition UART_RX_BUFFER_SIZE :: nat where
  "UART_RX_BUFFER_SIZE = 512"

record uart_rx_buffer_t =
  buffer :: "char list"
  head :: "16 word"
  tail :: "16 word"
  overflow :: bool

definition uart_buffer_init :: "uart_rx_buffer_t \<Rightarrow> uart_rx_buffer_t" where
  "uart_buffer_init b = b\<lparr>head := 0, tail := 0, overflow := False\<rparr>"

text \<open>\<^verbatim>\<open>uart_buffer_put\<close> returns the \<^verbatim>\<open>bool\<close> result and the updated buffer.\<close>

definition uart_buffer_put :: "uart_rx_buffer_t \<Rightarrow> char \<Rightarrow> bool \<times> uart_rx_buffer_t" where
  "uart_buffer_put b c =
     (let next_head = (word_of_nat ((unat (head b) + 1) mod UART_RX_BUFFER_SIZE) :: 16 word)
      in if next_head = tail b
         then (False, b\<lparr>overflow := True\<rparr>)
         else (True, b\<lparr>buffer := (buffer b)[unat (head b) := c], head := next_head\<rparr>))"

text \<open>
  \<^verbatim>\<open>uart_buffer_get\<close> writes \<^verbatim>\<open>*c\<close> only when it returns true: the result is
  \<open>None\<close> for false and \<open>Some c\<close> for true.
\<close>

definition uart_buffer_get :: "uart_rx_buffer_t \<Rightarrow> char option \<times> uart_rx_buffer_t" where
  "uart_buffer_get b =
     (if head b = tail b then (None, b)
      else (Some (buffer b ! unat (tail b)),
            b\<lparr>tail := word_of_nat ((unat (tail b) + 1) mod UART_RX_BUFFER_SIZE)\<rparr>))"

text \<open>
  The array has \<open>UART_RX_BUFFER_SIZE\<close> cells and every index the code stores is reduced
  modulo that size. \<open>rb_wf\<close> is the state invariant under which no access is out of
  range (an out-of-range access is undefined in C).
\<close>

definition rb_wf :: "uart_rx_buffer_t \<Rightarrow> bool" where
  "rb_wf b \<longleftrightarrow> length (buffer b) = UART_RX_BUFFER_SIZE
     \<and> unat (head b) < UART_RX_BUFFER_SIZE \<and> unat (tail b) < UART_RX_BUFFER_SIZE"

text \<open>
  \<^verbatim>\<open>uart_buffer_get_line\<close>. The local \<^verbatim>\<open>index\<close> is the number of bytes stored in
  \<^verbatim>\<open>line\<close> so far, so the model carries the bytes \<open>line[0..index-1]\<close> as a list and
  \<open>index\<close> is its length. The loop condition \<^verbatim>\<open>index < max_len - 1\<close> is evaluated in
  \<^verbatim>\<open>int\<close>. The result is \<open>Some line\<close> when the function returns true (the bytes in
  front of the terminating NUL it writes) and \<open>None\<close> when it returns false. The loop
  runs as long as \<^verbatim>\<open>uart_buffer_get\<close> delivers bytes, so it is a partial function:
  \<open>None\<close> at the outer level means that it does not return.
\<close>

definition line_result :: "char list \<Rightarrow> char list option" where
  "line_result line = (if length line > 0 then Some line else None)"

partial_function (option) uart_buffer_get_line_loop ::
  "uart_rx_buffer_t \<Rightarrow> nat \<Rightarrow> char list \<Rightarrow> (char list option \<times> uart_rx_buffer_t) option" where
  "uart_buffer_get_line_loop b max_len line =
     (if int (length line) < int max_len - 1
      then (case uart_buffer_get b of
              (None, b') \<Rightarrow> Some (line_result line, b')
            | (Some c, b') \<Rightarrow>
                if c = CHR 0x0D \<or> c = CHR 0x0A
                then (if length line > 0 then Some (Some line, b')
                      else uart_buffer_get_line_loop b' max_len line)
                else uart_buffer_get_line_loop b' max_len (line @ [c]))
      else Some (line_result line, b))"

definition uart_buffer_get_line ::
  "uart_rx_buffer_t \<Rightarrow> nat \<Rightarrow> (char list option \<times> uart_rx_buffer_t) option" where
  "uart_buffer_get_line b max_len = uart_buffer_get_line_loop b max_len []"

text \<open>
  The buffer lives in \<^verbatim>\<open>static lora_internal_state_t internal_state = {0}\<close>: before the
  first \<^verbatim>\<open>uart_buffer_init\<close> all its bytes and fields are zero.
\<close>

definition zero_uart_buffer :: uart_rx_buffer_t where
  "zero_uart_buffer =
     \<lparr>buffer = replicate 512 (CHR 0x00), head = 0, tail = 0, overflow = False\<rparr>"

text \<open>Drivers for the put/get sequences of the properties: feed a list of bytes, drain \<open>n\<close> bytes.\<close>

fun put_all :: "uart_rx_buffer_t \<Rightarrow> char list \<Rightarrow> bool list \<times> uart_rx_buffer_t" where
  "put_all b [] = ([], b)"
| "put_all b (c # cs) =
     (case uart_buffer_put b c of (ok, b') \<Rightarrow>
        (case put_all b' cs of (oks, b'') \<Rightarrow> (ok # oks, b'')))"

fun get_n :: "nat \<Rightarrow> uart_rx_buffer_t \<Rightarrow> char option list \<times> uart_rx_buffer_t" where
  "get_n 0 b = ([], b)"
| "get_n (Suc n) b =
     (case uart_buffer_get b of (r, b') \<Rightarrow>
        (case get_n n b' of (rs, b'') \<Rightarrow> (r # rs, b'')))"

text \<open>Arbitrary interleavings of the two operations, with the result of each call.\<close>

datatype rb_op = Put char | Get

datatype rb_res = PutRes bool | GetRes "char option"

fun run_ops :: "uart_rx_buffer_t \<Rightarrow> rb_op list \<Rightarrow> rb_res list \<times> uart_rx_buffer_t" where
  "run_ops b [] = ([], b)"
| "run_ops b (Put c # ops) =
     (case uart_buffer_put b c of (ok, b') \<Rightarrow>
        (case run_ops b' ops of (rs, b'') \<Rightarrow> (PutRes ok # rs, b'')))"
| "run_ops b (Get # ops) =
     (case uart_buffer_get b of (r, b') \<Rightarrow>
        (case run_ops b' ops of (rs, b'') \<Rightarrow> (GetRes r # rs, b'')))"

text \<open>
  The reference: a first-in first-out queue that holds at most \<open>UART_RX_BUFFER_SIZE - 1\<close>
  bytes and refuses a byte when it is full.
\<close>

fun queue_ops :: "char list \<Rightarrow> rb_op list \<Rightarrow> rb_res list \<times> char list" where
  "queue_ops q [] = ([], q)"
| "queue_ops q (Put c # ops) =
     (if length q = UART_RX_BUFFER_SIZE - 1
      then (case queue_ops q ops of (rs, q') \<Rightarrow> (PutRes False # rs, q'))
      else (case queue_ops (q @ [c]) ops of (rs, q') \<Rightarrow> (PutRes True # rs, q')))"
| "queue_ops q (Get # ops) =
     (case q of
        [] \<Rightarrow> (case queue_ops q ops of (rs, q') \<Rightarrow> (GetRes None # rs, q'))
      | x # xs \<Rightarrow> (case queue_ops xs ops of (rs, q') \<Rightarrow> (GetRes (Some x) # rs, q')))"

text \<open>The bytes stored between \<open>tail\<close> and \<open>head\<close>, oldest first.\<close>

definition rb_count :: "uart_rx_buffer_t \<Rightarrow> nat" where
  "rb_count b = (unat (head b) + UART_RX_BUFFER_SIZE - unat (tail b)) mod UART_RX_BUFFER_SIZE"

definition rb_contents :: "uart_rx_buffer_t \<Rightarrow> char list" where
  "rb_contents b =
     map (\<lambda>i. buffer b ! ((unat (tail b) + i) mod UART_RX_BUFFER_SIZE)) [0..<rb_count b]"

text \<open>
  What the line reader does, on the stored bytes: the reference against which
  \<open>uart_buffer_get_line\<close> is compared. It returns the line (if any) and the bytes left.
\<close>

fun line_scan :: "nat \<Rightarrow> char list \<Rightarrow> char list \<Rightarrow> char list option \<times> char list" where
  "line_scan max_len line [] = (line_result line, [])"
| "line_scan max_len line (c # cs) =
     (if int (length line) < int max_len - 1
      then (if c = CHR 0x0D \<or> c = CHR 0x0A
            then (if length line > 0 then (Some line, cs) else line_scan max_len line cs)
            else line_scan max_len (line @ [c]) cs)
      else (line_result line, c # cs))"

definition is_terminator :: "char \<Rightarrow> bool" where
  "is_terminator c \<longleftrightarrow> c = CHR 0x0D \<or> c = CHR 0x0A"

text \<open>A freshly initialised buffer into which the bytes \<open>cs\<close> have been put.\<close>

definition feed :: "char list \<Rightarrow> uart_rx_buffer_t" where
  "feed cs = snd (put_all (uart_buffer_init zero_uart_buffer) cs)"

section \<open>C strings and the C library functions lora.c calls\<close>

text \<open>
  A C string is the list of the chars in front of its terminating NUL; a pointer into a
  string is the suffix that starts there; a pointer argument that the code tests against
  \<^verbatim>\<open>NULL\<close> is an \<open>option\<close>. \<open>c_str\<close> reads a char array as a C string.

  The library functions are written after ISO C, for the target of the firmware (RP2040,
  32-bit \<^verbatim>\<open>long\<close>, unsigned \<^verbatim>\<open>char\<close>) and the "C" locale; the calls all use base 10.
\<close>

definition c_str :: "char list \<Rightarrow> string" where
  "c_str arr = takeWhile (\<lambda>c. c \<noteq> CHR 0x00) arr"

definition c_isupper :: "char \<Rightarrow> bool" where
  "c_isupper c \<longleftrightarrow> (65::nat) \<le> of_char c \<and> of_char c \<le> (90::nat)"

definition c_tolower :: "char \<Rightarrow> char" where
  "c_tolower c = (if c_isupper c then char_of (of_char c + (32::nat)) else c)"

definition c_isspace :: "char \<Rightarrow> bool" where
  "c_isspace c \<longleftrightarrow> of_char c = (32::nat) \<or> ((9::nat) \<le> of_char c \<and> of_char c \<le> (13::nat))"

definition c_isdigit :: "char \<Rightarrow> bool" where
  "c_isdigit c \<longleftrightarrow> (48::nat) \<le> of_char c \<and> of_char c \<le> (57::nat)"

fun strcasecmp :: "string \<Rightarrow> string \<Rightarrow> int" where
  "strcasecmp [] [] = 0"
| "strcasecmp [] (b # bs) = - int (of_char (c_tolower b))"
| "strcasecmp (a # az) [] = int (of_char (c_tolower a))"
| "strcasecmp (a # az) (b # bs) =
     (if c_tolower a = c_tolower b then strcasecmp az bs
      else int (of_char (c_tolower a)) - int (of_char (c_tolower b)))"

fun strncmp :: "string \<Rightarrow> string \<Rightarrow> nat \<Rightarrow> int" where
  "strncmp s1 s2 0 = 0"
| "strncmp [] [] (Suc n) = 0"
| "strncmp [] (b # bs) (Suc n) = - int (of_char b)"
| "strncmp (a # az) [] (Suc n) = int (of_char a)"
| "strncmp (a # az) (b # bs) (Suc n) =
     (if a = b then strncmp az bs n else int (of_char a) - int (of_char b))"

text \<open>\<^verbatim>\<open>strstr\<close> and \<^verbatim>\<open>strchr\<close>: the suffix at the first occurrence, \<open>None\<close> for \<^verbatim>\<open>NULL\<close>.\<close>

fun strstr :: "string \<Rightarrow> string \<Rightarrow> string option" where
  "strstr [] needle = (if needle = [] then Some [] else None)"
| "strstr (h # hs) needle =
     (if prefix needle (h # hs) then Some (h # hs) else strstr hs needle)"

fun strchr :: "string \<Rightarrow> char \<Rightarrow> string option" where
  "strchr [] c = None"
| "strchr (x # xs) c = (if x = c then Some (x # xs) else strchr xs c)"

definition ULONG_MAX :: nat where
  "ULONG_MAX = 4294967295"

definition LONG_MAX :: int where
  "LONG_MAX = 2147483647"

definition LONG_MIN :: int where
  "LONG_MIN = - 2147483648"

definition digit_value :: "char \<Rightarrow> nat" where
  "digit_value c = of_char c - 48"

definition decimal_value :: "string \<Rightarrow> nat" where
  "decimal_value ds = foldl (\<lambda>n c. 10 * n + digit_value c) 0 ds"

text \<open>
  \<^verbatim>\<open>strtoul(s, &end, 10)\<close> and \<^verbatim>\<open>strtol(s, &end, 10)\<close>: white space, an optional
  sign, then digits. The result is the value and the end pointer. Without a digit the value
  is 0 and the end pointer is \<open>s\<close> itself. A value out of range is clamped to the bound;
  \<^verbatim>\<open>strtoul\<close> negates in \<^verbatim>\<open>unsigned long\<close> after a minus sign.
\<close>

definition strtoul :: "string \<Rightarrow> nat \<times> string" where
  "strtoul s =
     (let t = dropWhile c_isspace s;
          neg = (t \<noteq> [] \<and> hd t = CHR ''-'');
          u = (if t \<noteq> [] \<and> (hd t = CHR ''-'' \<or> hd t = CHR ''+'') then tl t else t);
          ds = takeWhile c_isdigit u
      in if ds = [] then (0, s)
         else (let v = decimal_value ds
               in if v > ULONG_MAX then ULONG_MAX
                  else if neg then (ULONG_MAX + 1 - v) mod (ULONG_MAX + 1)
                  else v,
               dropWhile c_isdigit u))"

definition strtol :: "string \<Rightarrow> int \<times> string" where
  "strtol s =
     (let t = dropWhile c_isspace s;
          neg = (t \<noteq> [] \<and> hd t = CHR ''-'');
          u = (if t \<noteq> [] \<and> (hd t = CHR ''-'' \<or> hd t = CHR ''+'') then tl t else t);
          ds = takeWhile c_isdigit u
      in if ds = [] then (0, s)
         else (let v = (if neg then - int (decimal_value ds) else int (decimal_value ds))
               in if v > LONG_MAX then LONG_MAX
                  else if v < LONG_MIN then LONG_MIN
                  else v,
               dropWhile c_isdigit u))"

section \<open>Command classifiers and response classification (lora.c)\<close>

definition lora_is_on_command :: "string option \<Rightarrow> bool" where
  "lora_is_on_command message =
     (case message of
        None \<Rightarrow> False
      | Some m \<Rightarrow> strcasecmp m ''ON'' = 0 \<or> strcasecmp m ''START'' = 0
                   \<or> strcasecmp m ''MOVE'' = 0 \<or> strcasecmp m ''1'' = 0)"

definition lora_is_off_command :: "string option \<Rightarrow> bool" where
  "lora_is_off_command message =
     (case message of
        None \<Rightarrow> False
      | Some m \<Rightarrow> strcasecmp m ''OFF'' = 0 \<or> strcasecmp m ''STOP'' = 0
                   \<or> strcasecmp m ''HALT'' = 0 \<or> strcasecmp m ''0'' = 0)"

definition is_response_ok :: "string option \<Rightarrow> bool" where
  "is_response_ok response =
     (case response of
        None \<Rightarrow> False
      | Some r \<Rightarrow>
          if strstr r ''+ERR'' \<noteq> None \<or> strstr r ''ERROR'' \<noteq> None then False
          else strstr r ''OK'' \<noteq> None \<or> strstr r ''+OK'' \<noteq> None)"

text \<open>
  Two chars are the same letter up to case; two strings are equal up to case. This is the
  reading of "equals case-insensitively" against which the classifiers are checked.
\<close>

definition same_letter :: "char \<Rightarrow> char \<Rightarrow> bool" where
  "same_letter a b \<longleftrightarrow>
     a = b \<or> (c_isupper a \<and> (of_char b :: nat) = of_char a + 32)
           \<or> (c_isupper b \<and> (of_char a :: nat) = of_char b + 32)"

definition equal_ignoring_case :: "string \<Rightarrow> string \<Rightarrow> bool" where
  "equal_ignoring_case s t \<longleftrightarrow> list_all2 same_letter s t"

section \<open>Received-message parsing (lora.c, lora.h)\<close>

definition LORA_MAX_MESSAGE_LENGTH :: nat where
  "LORA_MAX_MESSAGE_LENGTH = 240"

definition RESPONSE_BUFFER_SIZE :: nat where
  "RESPONSE_BUFFER_SIZE = 256"

record lora_message_t =
  sender_address :: "16 word"
  rssi :: "8 word"
  payload_length :: "8 word"
  payload :: "char list"

text \<open>The structure after \<^verbatim>\<open>memset(message, 0, sizeof(lora_message_t))\<close>.\<close>

definition zero_message :: lora_message_t where
  "zero_message =
     \<lparr>sender_address = 0, rssi = 0, payload_length = 0,
      payload = replicate LORA_MAX_MESSAGE_LENGTH (CHR 0x00)\<rparr>"

datatype lora_status_t =
  LORA_STATUS_OK | LORA_STATUS_ERROR | LORA_STATUS_TIMEOUT
  | LORA_STATUS_INVALID_PARAM | LORA_STATUS_NOT_INITIALIZED | LORA_STATUS_UART_ERROR

text \<open>
  \<^verbatim>\<open>response + 5\<close> skips the prefix without looking at it. On a string of fewer than five
  chars the pointer is beyond the terminator and the reads that follow are out of range:
  that outcome is the fault \<open>ReadPastEnd\<close>.
\<close>

datatype c_fault = ReadPastEnd

definition skip_comma :: "string \<Rightarrow> string" where
  "skip_comma ptr = (if ptr \<noteq> [] \<and> hd ptr = CHR '','' then tl ptr else ptr)"

definition parse_fields :: "string \<Rightarrow> lora_message_t" where
  "parse_fields response =
     (let ptr0 = drop 5 response;
          (addr, ptr1) = strtoul ptr0;
          m1 = zero_message\<lparr>sender_address := word_of_nat addr\<rparr>;
          ptr2 = skip_comma ptr1;
          (len, ptr3) = strtoul ptr2;
          m2 = m1\<lparr>payload_length := word_of_nat len\<rparr>;
          payload_start = skip_comma ptr3
      in case strchr payload_start (CHR '','') of
           None \<Rightarrow> m2
         | Some payload_end \<Rightarrow>
             (let payload_len0 = (word_of_nat (length payload_start - length payload_end) :: 8 word);
                  payload_len = (if unat payload_len0 > LORA_MAX_MESSAGE_LENGTH - 1
                                 then word_of_nat (LORA_MAX_MESSAGE_LENGTH - 1)
                                 else payload_len0);
                  n = unat payload_len;
                  copied = take n payload_start @ drop n (payload m2)
              in m2\<lparr>payload := copied[n := CHR 0x00],
                    payload_length := payload_len,
                    rssi := word_of_int \<bar>fst (strtol (tl payload_end))\<bar>\<rparr>))"

text \<open>
  \<^verbatim>\<open>parse_received_message\<close>: the result is the structure \<^verbatim>\<open>message\<close> points to after
  the call (\<open>None\<close> for a \<^verbatim>\<open>NULL\<close> pointer; with a \<^verbatim>\<open>NULL\<close> argument the function returns
  at once).
\<close>

definition parse_received_message ::
  "string option \<Rightarrow> lora_message_t option \<Rightarrow> c_fault + lora_message_t option" where
  "parse_received_message response message =
     (case response of
        None \<Rightarrow> Inr message
      | Some r \<Rightarrow>
          (case message of
             None \<Rightarrow> Inr None
           | Some m \<Rightarrow>
               if length r < 5 then Inl ReadPastEnd else Inr (Some (parse_fields r))))"

text \<open>
  \<^verbatim>\<open>lora_receive_message\<close> reads only the \<^verbatim>\<open>initialized\<close> field of the configuration.
  The ring buffer of \<^verbatim>\<open>internal_state\<close> is passed in and returned; the diagnostic
  \<^verbatim>\<open>printf\<close> calls are left out. The outer \<open>None\<close> is a line reader that does not return.
\<close>

record lora_config_t =
  initialized :: bool

definition lora_receive_message ::
  "lora_config_t option \<Rightarrow> lora_message_t option \<Rightarrow> uart_rx_buffer_t
     \<Rightarrow> (c_fault + lora_status_t \<times> lora_message_t option \<times> uart_rx_buffer_t) option" where
  "lora_receive_message config message ub =
     (case config of
        None \<Rightarrow> Some (Inr (LORA_STATUS_INVALID_PARAM, message, ub))
      | Some cfg \<Rightarrow>
          if \<not> initialized cfg \<or> message = None
          then Some (Inr (LORA_STATUS_INVALID_PARAM, message, ub))
          else (case uart_buffer_get_line ub RESPONSE_BUFFER_SIZE of
                  None \<Rightarrow> None
                | Some (None, ub') \<Rightarrow> Some (Inr (LORA_STATUS_ERROR, message, ub'))
                | Some (Some line, ub') \<Rightarrow>
                    (let response = c_str line
                     in if strncmp response ''+RCV='' 5 = 0
                        then (case parse_received_message (Some response) message of
                                Inl f \<Rightarrow> Some (Inl f)
                              | Inr m' \<Rightarrow> Some (Inr (LORA_STATUS_OK, m', ub')))
                        else Some (Inr (LORA_STATUS_ERROR, message, ub')))))"

section \<open>Stepper driver (stepper.c)\<close>

text \<open>
  The header \<^verbatim>\<open>stepper.h\<close> is not among the sources, so the declarations it holds are
  taken from their uses in \<^verbatim>\<open>stepper.c\<close>. The constant \<^verbatim>\<open>STEPS_PER_REVOLUTION\<close> is a
  parameter \<open>spr\<close> of the functions that use it.
\<close>

text \<open>
  Modelled from the spec: the enumeration \<^verbatim>\<open>stepper_direction_t\<close> of \<^verbatim>\<open>stepper.h\<close>
  ("direction is +1 (clockwise) or -1 mod 8 (counter-clockwise)"), with the two values
  \<^verbatim>\<open>stepper.c\<close> names.
\<close>

datatype stepper_direction_t = STEPPER_CW | STEPPER_CCW

text \<open>
  Modelled from the spec: the structure \<^verbatim>\<open>stepper_motor_t\<close> of \<^verbatim>\<open>stepper.h\<close> ("four GPIO
  pin identifiers, current phase index (0-7), per-step delay, enabled flag"), with the
  field names \<^verbatim>\<open>stepper.c\<close> uses; \<^verbatim>\<open>current_step\<close> is an \<^verbatim>\<open>int\<close>, as the parameter of
  \<^verbatim>\<open>stepper_apply_step\<close> and the result of \<^verbatim>\<open>stepper_get_position\<close> are, and the pins and
  the delay are \<^verbatim>\<open>uint\<close>.
\<close>

record stepper_motor_t =
  pin1 :: nat
  pin2 :: nat
  pin3 :: nat
  pin4 :: nat
  step_delay :: nat
  current_step :: int
  enabled :: bool

text \<open>
  The hardware the driver acts on: the level of every GPIO output, the SDK calls made so
  far (oldest first), and how many times the volatile \<^verbatim>\<open>stepper_interrupt_flag\<close> has been
  read. The flag is written by other code while a stepping call runs, so its value at the
  \<open>k\<close>-th read is given by a function \<open>flag\<close> from read numbers to values.
\<close>

datatype hw_event = GpioInit nat | GpioSetDir nat bool | GpioPut nat bool | SleepMs nat

record hw_state =
  gpio_level :: "nat \<Rightarrow> bool"
  events :: "hw_event list"
  flag_reads :: nat

definition gpio_init :: "nat \<Rightarrow> hw_state \<Rightarrow> hw_state" where
  "gpio_init pin h = h\<lparr>events := events h @ [GpioInit pin]\<rparr>"

definition gpio_set_dir :: "nat \<Rightarrow> bool \<Rightarrow> hw_state \<Rightarrow> hw_state" where
  "gpio_set_dir pin out h = h\<lparr>events := events h @ [GpioSetDir pin out]\<rparr>"

definition gpio_put :: "nat \<Rightarrow> bool \<Rightarrow> hw_state \<Rightarrow> hw_state" where
  "gpio_put pin v h = h\<lparr>gpio_level := (gpio_level h)(pin := v), events := events h @ [GpioPut pin v]\<rparr>"

definition sleep_ms :: "nat \<Rightarrow> hw_state \<Rightarrow> hw_state" where
  "sleep_ms ms h = h\<lparr>events := events h @ [SleepMs ms]\<rparr>"

definition read_flag :: "(nat \<Rightarrow> bool) \<Rightarrow> hw_state \<Rightarrow> bool \<times> hw_state" where
  "read_flag flag h = (flag (flag_reads h), h\<lparr>flag_reads := Suc (flag_reads h)\<rparr>)"

definition step_sequence :: "bool list list" where
  "step_sequence =
     [[True, False, False, False],
      [True, True, False, False],
      [False, True, False, False],
      [False, True, True, False],
      [False, False, True, False],
      [False, False, True, True],
      [False, False, False, True],
      [True, False, False, True]]"

text \<open>
  \<^verbatim>\<open>step_sequence[step]\<close> is a read outside the table unless \<open>0 \<le> step < 8\<close>; that
  outcome is \<open>None\<close>, as is every other undefined operation below.
\<close>

definition step_pattern :: "int \<Rightarrow> bool list option" where
  "step_pattern step = (if 0 \<le> step \<and> step < 8 then Some (step_sequence ! nat step) else None)"

definition stepper_apply_step ::
  "hw_state \<Rightarrow> stepper_motor_t \<Rightarrow> int \<Rightarrow> (hw_state \<times> stepper_motor_t) option" where
  "stepper_apply_step h motor step =
     (if \<not> enabled motor then Some (h, motor)
      else (case step_pattern step of
              None \<Rightarrow> None
            | Some p \<Rightarrow>
                Some (gpio_put (pin4 motor) (p ! 3)
                       (gpio_put (pin3 motor) (p ! 2)
                         (gpio_put (pin2 motor) (p ! 1)
                           (gpio_put (pin1 motor) (p ! 0) h))),
                      motor\<lparr>current_step := step\<rparr>)))"

text \<open>
  \<^verbatim>\<open>stepper_init\<close>: the result is the returned \<^verbatim>\<open>bool\<close>, the hardware and the structure
  the pointer refers to (\<open>None\<close> for \<^verbatim>\<open>NULL\<close>). Every field is assigned, so the structure's
  contents before the call do not matter.
\<close>

definition stepper_init ::
  "hw_state \<Rightarrow> stepper_motor_t option \<Rightarrow> nat \<Rightarrow> nat \<Rightarrow> nat \<Rightarrow> nat \<Rightarrow> nat
     \<Rightarrow> (bool \<times> hw_state \<times> stepper_motor_t option) option" where
  "stepper_init h motor p1 p2 p3 p4 delay =
     (case motor of
        None \<Rightarrow> Some (False, h, None)
      | Some m0 \<Rightarrow>
          (let m = \<lparr>pin1 = p1, pin2 = p2, pin3 = p3, pin4 = p4, step_delay = delay,
                    current_step = 0, enabled = True\<rparr>;
               h1 = gpio_init p4 (gpio_init p3 (gpio_init p2 (gpio_init p1 h)));
               h2 = gpio_set_dir p4 True (gpio_set_dir p3 True
                      (gpio_set_dir p2 True (gpio_set_dir p1 True h1)))
           in (case stepper_apply_step h2 m 0 of
                 None \<Rightarrow> None
               | Some (h3, m') \<Rightarrow> Some (True, h3, Some m'))))"

text \<open>The remainder of C's \<^verbatim>\<open>%\<close> on \<^verbatim>\<open>int\<close>, which truncates towards zero.\<close>

definition c_rem :: "int \<Rightarrow> int \<Rightarrow> int" where
  "c_rem a b = a - b * (sgn a * sgn b * (\<bar>a\<bar> div \<bar>b\<bar>))"

definition next_step :: "stepper_direction_t \<Rightarrow> int \<Rightarrow> int" where
  "next_step direction cur =
     (if direction = STEPPER_CW then c_rem (cur + 1) 8 else c_rem (cur - 1 + 8) 8)"

text \<open>
  The delay loop of both stepping functions. \<^verbatim>\<open>remaining_delay > 0 && !flag\<close> reads the
  flag only when the first operand holds.
\<close>

function interruptible_delay :: "(nat \<Rightarrow> bool) \<Rightarrow> nat \<Rightarrow> hw_state \<Rightarrow> hw_state" where
  "interruptible_delay flag remaining_delay h =
     (if remaining_delay > 0
      then (case read_flag flag h of
              (f, h') \<Rightarrow>
                if \<not> f
                then interruptible_delay flag
                       (remaining_delay - (if remaining_delay > 1 then 1 else remaining_delay))
                       (sleep_ms (if remaining_delay > 1 then 1 else remaining_delay) h')
                else h')
      else h)"
  by pat_completeness auto
termination
  by (relation "measure (\<lambda>(flag, r, h). r)") auto

text \<open>One pass of the \<^verbatim>\<open>for\<close> loop of \<^verbatim>\<open>stepper_move_steps\<close>, and the loop on the steps left.\<close>

fun move_loop ::
  "(nat \<Rightarrow> bool) \<Rightarrow> stepper_direction_t \<Rightarrow> nat \<Rightarrow> hw_state \<Rightarrow> stepper_motor_t
     \<Rightarrow> (hw_state \<times> stepper_motor_t) option" where
  "move_loop flag direction 0 h motor = Some (h, motor)"
| "move_loop flag direction (Suc n) h motor =
     (case read_flag flag h of
        (f, h1) \<Rightarrow>
          if f then Some (h1, motor)
          else (let step = next_step direction (current_step motor)
                in case stepper_apply_step h1 (motor\<lparr>current_step := step\<rparr>) step of
                     None \<Rightarrow> None
                   | Some (h2, motor') \<Rightarrow>
                       (case read_flag flag (interruptible_delay flag (step_delay motor') h2) of
                          (f', h3) \<Rightarrow>
                            if f' then Some (h3, motor') else move_loop flag direction n h3 motor')))"

definition stepper_move_steps ::
  "(nat \<Rightarrow> bool) \<Rightarrow> hw_state \<Rightarrow> stepper_motor_t option \<Rightarrow> nat \<Rightarrow> stepper_direction_t
     \<Rightarrow> (hw_state \<times> stepper_motor_t option) option" where
  "stepper_move_steps flag h motor steps direction =
     (case motor of
        None \<Rightarrow> Some (h, None)
      | Some m \<Rightarrow>
          if \<not> enabled m then Some (h, Some m)
          else (case move_loop flag direction steps h m of
                  None \<Rightarrow> None
                | Some (h', m') \<Rightarrow> Some (h', Some m')))"

definition stepper_disable :: "hw_state \<Rightarrow> stepper_motor_t option \<Rightarrow> hw_state \<times> stepper_motor_t option" where
  "stepper_disable h motor =
     (case motor of
        None \<Rightarrow> (h, None)
      | Some m \<Rightarrow>
          (gpio_put (pin4 m) False (gpio_put (pin3 m) False
             (gpio_put (pin2 m) False (gpio_put (pin1 m) False h))),
           Some (m\<lparr>enabled := False\<rparr>)))"

definition stepper_enable ::
  "hw_state \<Rightarrow> stepper_motor_t option \<Rightarrow> (hw_state \<times> stepper_motor_t option) option" where
  "stepper_enable h motor =
     (case motor of
        None \<Rightarrow> Some (h, None)
      | Some m \<Rightarrow>
          (case stepper_apply_step h (m\<lparr>enabled := True\<rparr>) (current_step m) of
             None \<Rightarrow> None
           | Some (h', m') \<Rightarrow> Some (h', Some m')))"

definition stepper_set_speed :: "stepper_motor_t option \<Rightarrow> nat \<Rightarrow> stepper_motor_t option" where
  "stepper_set_speed motor delay =
     (case motor of None \<Rightarrow> None | Some m \<Rightarrow> Some (m\<lparr>step_delay := delay\<rparr>))"

definition stepper_get_position :: "stepper_motor_t option \<Rightarrow> int" where
  "stepper_get_position motor = (case motor of None \<Rightarrow> - 1 | Some m \<Rightarrow> current_step m)"


text \<open>
  The step count \<^verbatim>\<open>(uint)((degrees / 360.0f) * STEPS_PER_REVOLUTION)\<close>. A finite
  \<^verbatim>\<open>float\<close> is the rational number it denotes. \<open>f32_round\<close> is IEEE 754 binary32
  rounding (to nearest, ties to even; \<open>None\<close> when the result overflows to infinity):
  the quotient and the product are each rounded once. The conversion to \<^verbatim>\<open>uint\<close>
  truncates towards zero and is undefined (\<open>None\<close>) unless the truncated value fits 32 bits.
\<close>

function bit_length :: "int \<Rightarrow> int" where
  "bit_length n = (if n \<le> 0 then 0 else 1 + bit_length (n div 2))"
  by pat_completeness auto
termination
  by (relation "measure nat") auto

definition floor_log2 :: "rat \<Rightarrow> int" where
  "floor_log2 x =
     (if 1 \<le> x then bit_length \<lfloor>x\<rfloor> - 1
      else - bit_length (\<lceil>1 / x\<rceil> - 1))"

definition round_half_even :: "rat \<Rightarrow> int" where
  "round_half_even y =
     (let f = \<lfloor>y\<rfloor>; r = y - of_int f
      in if r < 1 / 2 then f else if 1 / 2 < r then f + 1 else if even f then f else f + 1)"

definition f32_round :: "rat \<Rightarrow> rat option" where
  "f32_round x =
     (if x = 0 then Some 0
      else (let e = max (floor_log2 \<bar>x\<bar>) (- 126);
                ulp = 2 powi (e - 23);
                y = of_int (round_half_even (x / ulp)) * ulp
            in if 2 powi 128 \<le> \<bar>y\<bar> then None else Some y))"

definition degrees_to_steps :: "nat \<Rightarrow> rat \<Rightarrow> nat option" where
  "degrees_to_steps spr degrees =
     (case f32_round (degrees / 360) of
        None \<Rightarrow> None
      | Some q \<Rightarrow>
          (case f32_round (of_nat spr) of
             None \<Rightarrow> None
           | Some s \<Rightarrow>
               (case f32_round (q * s) of
                  None \<Rightarrow> None
                | Some p \<Rightarrow> if - 1 < p \<and> p < 2 ^ 32 then Some (nat \<lfloor>p\<rfloor>) else None)))"

text \<open>
  \<^verbatim>\<open>stepper_rotate_multiple_degrees\<close>. The argument \<^verbatim>\<open>motors\<close> is an array of pointers
  and \<^verbatim>\<open>num_motors\<close> its length: a list whose entries are \<open>None\<close> for \<^verbatim>\<open>NULL\<close> and the
  motor pointed to otherwise (the pointers of one call are distinct: the caller takes them
  from the elements of one array). The list after the call holds the motors after the call.
\<close>

fun advance_motors ::
  "hw_state \<Rightarrow> stepper_direction_t \<Rightarrow> stepper_motor_t option list
     \<Rightarrow> (hw_state \<times> stepper_motor_t option list) option" where
  "advance_motors h direction [] = Some (h, [])"
| "advance_motors h direction (None # ms) =
     (case advance_motors h direction ms of
        None \<Rightarrow> None
      | Some (h', ms') \<Rightarrow> Some (h', None # ms'))"
| "advance_motors h direction (Some motor # ms) =
     (if enabled motor
      then (let step = next_step direction (current_step motor)
            in case stepper_apply_step h (motor\<lparr>current_step := step\<rparr>) step of
                 None \<Rightarrow> None
               | Some (h1, motor') \<Rightarrow>
                   (case advance_motors h1 direction ms of
                      None \<Rightarrow> None
                    | Some (h', ms') \<Rightarrow> Some (h', Some motor' # ms')))
      else (case advance_motors h direction ms of
              None \<Rightarrow> None
            | Some (h', ms') \<Rightarrow> Some (h', Some motor # ms')))"

text \<open>The second inner loop: the delay of the first motor that is present and enabled.\<close>

fun first_motor_delay :: "(nat \<Rightarrow> bool) \<Rightarrow> stepper_motor_t option list \<Rightarrow> hw_state \<Rightarrow> hw_state" where
  "first_motor_delay flag [] h = h"
| "first_motor_delay flag (None # ms) h = first_motor_delay flag ms h"
| "first_motor_delay flag (Some motor # ms) h =
     (if enabled motor then interruptible_delay flag (step_delay motor) h
      else first_motor_delay flag ms h)"

fun rotate_loop ::
  "(nat \<Rightarrow> bool) \<Rightarrow> stepper_direction_t \<Rightarrow> nat \<Rightarrow> hw_state \<Rightarrow> stepper_motor_t option list
     \<Rightarrow> (hw_state \<times> stepper_motor_t option list) option" where
  "rotate_loop flag direction 0 h ms = Some (h, ms)"
| "rotate_loop flag direction (Suc n) h ms =
     (case read_flag flag h of
        (f, h1) \<Rightarrow>
          if f then Some (h1, ms)
          else (case advance_motors h1 direction ms of
                  None \<Rightarrow> None
                | Some (h2, ms') \<Rightarrow>
                    (case read_flag flag (first_motor_delay flag ms' h2) of
                       (f', h3) \<Rightarrow>
                         if f' then Some (h3, ms') else rotate_loop flag direction n h3 ms')))"

definition stepper_rotate_multiple_degrees ::
  "(nat \<Rightarrow> bool) \<Rightarrow> nat \<Rightarrow> hw_state \<Rightarrow> stepper_motor_t option list option \<Rightarrow> rat
     \<Rightarrow> stepper_direction_t \<Rightarrow> (hw_state \<times> stepper_motor_t option list option) option" where
  "stepper_rotate_multiple_degrees flag spr h motors degrees direction =
     (case motors of
        None \<Rightarrow> Some (h, None)
      | Some ms \<Rightarrow>
          if length ms = 0 then Some (h, Some ms)
          else (case degrees_to_steps spr degrees of
                  None \<Rightarrow> None
                | Some steps \<Rightarrow>
                    (case rotate_loop flag direction steps h ms of
                       None \<Rightarrow> None
                     | Some (h', ms') \<Rightarrow> Some (h', Some ms'))))"

definition stepper_rotate_degrees ::
  "(nat \<Rightarrow> bool) \<Rightarrow> nat \<Rightarrow> hw_state \<Rightarrow> stepper_motor_t option \<Rightarrow> rat
     \<Rightarrow> stepper_direction_t \<Rightarrow> (hw_state \<times> stepper_motor_t option) option" where
  "stepper_rotate_degrees flag spr h motor degrees direction =
     (case motor of
        None \<Rightarrow> Some (h, None)
      | Some m \<Rightarrow>
          if \<not> enabled m then Some (h, Some m)
          else (case degrees_to_steps spr degrees of
                  None \<Rightarrow> None
                | Some steps \<Rightarrow> stepper_move_steps flag h (Some m) steps direction))"

text \<open>
  \<^verbatim>\<open>stepper_emergency_stop_all\<close> takes an array of structures (\<open>None\<close> for \<^verbatim>\<open>NULL\<close>) and
  its length \<^verbatim>\<open>num_motors\<close>.
\<close>

fun stop_motors :: "hw_state \<Rightarrow> stepper_motor_t list \<Rightarrow> hw_state \<times> stepper_motor_t list" where
  "stop_motors h [] = (h, [])"
| "stop_motors h (motor # ms) =
     (case stop_motors
             (gpio_put (pin4 motor) False (gpio_put (pin3 motor) False
                (gpio_put (pin2 motor) False (gpio_put (pin1 motor) False h))))
             ms of
        (h', ms') \<Rightarrow> (h', motor\<lparr>enabled := False\<rparr> # ms'))"

definition stepper_emergency_stop_all ::
  "hw_state \<Rightarrow> stepper_motor_t list option \<Rightarrow> hw_state \<times> stepper_motor_t list option" where
  "stepper_emergency_stop_all h motors =
     (case motors of
        None \<Rightarrow> (h, None)
      | Some ms \<Rightarrow> (case stop_motors h ms of (h', ms') \<Rightarrow> (h', Some ms')))"

text \<open>The phase index is inside the half-step table.\<close>

definition step_in_range :: "stepper_motor_t \<Rightarrow> bool" where
  "step_in_range m \<longleftrightarrow> 0 \<le> current_step m \<and> current_step m \<le> 7"

text \<open>The length of the delay that follows the motor advance in one pass of the rotate loop.\<close>

fun first_delay_ms :: "stepper_motor_t option list \<Rightarrow> nat" where
  "first_delay_ms [] = 0"
| "first_delay_ms (None # ms) = first_delay_ms ms"
| "first_delay_ms (Some motor # ms) = (if enabled motor then step_delay motor else first_delay_ms ms)"

text \<open>Every motor of an array has its phase index inside the table.\<close>

definition motors_in_range :: "stepper_motor_t option list \<Rightarrow> bool" where
  "motors_in_range ms \<longleftrightarrow> list_all (\<lambda>mo. case mo of None \<Rightarrow> True | Some m \<Rightarrow> step_in_range m) ms"

text \<open>
  A motor after \<open>n\<close> steps in one direction: the reference against which a complete,
  uncancelled rotation is compared. Absent and disabled motors stay as they are.
\<close>

definition advanced_by ::
  "stepper_direction_t \<Rightarrow> nat \<Rightarrow> stepper_motor_t option \<Rightarrow> stepper_motor_t option" where
  "advanced_by direction n mo =
     (case mo of
        None \<Rightarrow> None
      | Some m \<Rightarrow>
          if enabled m
          then Some (m\<lparr>current_step :=
                        (if direction = STEPPER_CW then (current_step m + int n) mod 8
                         else (current_step m - int n) mod 8)\<rparr>)
          else Some m)"

text \<open>
  The SDK calls of a rotation that is not cancelled, as a reference for the hardware trace
  of \<^verbatim>\<open>stepper_rotate_multiple_degrees\<close>. \<open>phase_outputs\<close> is the four \<^verbatim>\<open>gpio_put\<close> calls
  that drive the coils of a present, enabled motor to the pattern of its phase. Pass
  number \<open>k\<close> (counted from 1) writes the pattern of every motor \<open>k\<close> steps on, in array
  order, and then sleeps one millisecond at a time for the delay of the first present,
  enabled motor. A run of \<open>n\<close> passes is pass 1 to pass \<open>n\<close>.
\<close>

definition phase_outputs :: "stepper_motor_t option \<Rightarrow> hw_event list" where
  "phase_outputs mo =
     (case mo of
        None \<Rightarrow> []
      | Some m \<Rightarrow>
          if enabled m
          then [GpioPut (pin1 m) (step_sequence ! nat (current_step m) ! 0),
                GpioPut (pin2 m) (step_sequence ! nat (current_step m) ! 1),
                GpioPut (pin3 m) (step_sequence ! nat (current_step m) ! 2),
                GpioPut (pin4 m) (step_sequence ! nat (current_step m) ! 3)]
          else [])"

definition pass_outputs ::
  "stepper_direction_t \<Rightarrow> stepper_motor_t option list \<Rightarrow> nat \<Rightarrow> hw_event list" where
  "pass_outputs direction ms k = concat (map (\<lambda>mo. phase_outputs (advanced_by direction k mo)) ms)"

definition pass_events ::
  "stepper_direction_t \<Rightarrow> stepper_motor_t option list \<Rightarrow> nat \<Rightarrow> hw_event list" where
  "pass_events direction ms k =
     pass_outputs direction ms k @ replicate (first_delay_ms ms) (SleepMs 1)"

definition run_events ::
  "stepper_direction_t \<Rightarrow> stepper_motor_t option list \<Rightarrow> nat \<Rightarrow> hw_event list" where
  "run_events direction ms n = concat (map (pass_events direction ms) [1..<Suc n])"

text \<open>The motors of an array that a rotation drives: present and enabled.\<close>

definition active_motors :: "stepper_motor_t option list \<Rightarrow> nat" where
  "active_motors ms = length (filter (\<lambda>mo. case mo of None \<Rightarrow> False | Some m \<Rightarrow> enabled m) ms)"

definition is_gpio_put :: "hw_event \<Rightarrow> bool" where
  "is_gpio_put e = (case e of GpioPut pin v \<Rightarrow> True | _ \<Rightarrow> False)"

text \<open>
  The motor structures that the driver's operations produce, starting from
  \<^verbatim>\<open>stepper_init\<close>. The last rule is the assignment \<^verbatim>\<open>global_steppers[i].enabled = true\<close>
  of the message handler in \<^verbatim>\<open>run.c\<close>.
\<close>

inductive reachable :: "stepper_motor_t \<Rightarrow> bool" where
  r_init:
    "stepper_init h (Some m0) p1 p2 p3 p4 delay = Some (ok, h', Some m) \<Longrightarrow> reachable m"
| r_move_steps:
    "reachable m \<Longrightarrow>
     stepper_move_steps flag h (Some m) steps direction = Some (h', Some m') \<Longrightarrow> reachable m'"
| r_rotate_degrees:
    "reachable m \<Longrightarrow>
     stepper_rotate_degrees flag spr h (Some m) degrees direction = Some (h', Some m') \<Longrightarrow>
     reachable m'"
| r_rotate_multiple_degrees:
    "\<forall>mo \<in> set ms. \<forall>m. mo = Some m \<longrightarrow> reachable m \<Longrightarrow>
     stepper_rotate_multiple_degrees flag spr h (Some ms) degrees direction = Some (h', Some ms') \<Longrightarrow>
     Some m' \<in> set ms' \<Longrightarrow> reachable m'"
| r_disable:
    "reachable m \<Longrightarrow> stepper_disable h (Some m) = (h', Some m') \<Longrightarrow> reachable m'"
| r_enable:
    "reachable m \<Longrightarrow> stepper_enable h (Some m) = Some (h', Some m') \<Longrightarrow> reachable m'"
| r_set_speed:
    "reachable m \<Longrightarrow> stepper_set_speed (Some m) delay = Some m' \<Longrightarrow> reachable m'"
| r_emergency_stop_all:
    "\<forall>m \<in> set ms. reachable m \<Longrightarrow>
     stepper_emergency_stop_all h (Some ms) = (h', Some ms') \<Longrightarrow>
     m' \<in> set ms' \<Longrightarrow> reachable m'"
| r_handler_enable:
    "reachable m \<Longrightarrow> reachable (m\<lparr>enabled := True\<rparr>)"

text \<open>
  Concrete values for checking the statements: the hardware with every output high and
  nothing done yet, and the first two motors of \<^verbatim>\<open>run.c\<close> (pins 2, 3, 6, 7 and pins
  10, 11, 14, 15, delay \<^verbatim>\<open>STEPPER_DELAY_MS = 1\<close>) as \<^verbatim>\<open>stepper_init\<close> leaves them.
\<close>

definition hw_all_high :: hw_state where
  "hw_all_high = \<lparr>gpio_level = (\<lambda>pin. True), events = [], flag_reads = 0\<rparr>"

definition run_motor1 :: stepper_motor_t where
  "run_motor1 =
     \<lparr>pin1 = 2, pin2 = 3, pin3 = 6, pin4 = 7, step_delay = 1, current_step = 0, enabled = True\<rparr>"

definition run_motor2 :: stepper_motor_t where
  "run_motor2 =
     \<lparr>pin1 = 10, pin2 = 11, pin3 = 14, pin4 = 15, step_delay = 1, current_step = 0, enabled = True\<rparr>"
section \<open>Ring buffer: index arithmetic and the stored bytes\<close>

lemma mod512_cases:
  fixes x :: nat
  assumes "x < 1024"
  shows "x mod 512 = (if x < 512 then x else x - 512)"
proof (cases "x < 512")
  case True
  then show ?thesis by simp
next
  case False
  then have "x mod 512 = (x - 512) mod 512" by (simp add: le_mod_geq)
  also have "\<dots> = x - 512" using assms by (intro mod_less) arith
  finally show ?thesis using False by simp
qed

lemma ring_other_pos:
  fixes h t :: nat
  assumes "h < 512" "t < 512" "i < (h + 512 - t) mod 512"
  shows "(t + i) mod 512 \<noteq> h"
proof -
  have a: "(h + 512 - t) mod 512 = (if h + 512 - t < 512 then h + 512 - t else h + 512 - t - 512)"
    using assms(1,2) by (intro mod512_cases) arith
  have i: "i < 512" using assms(3) by (rule less_trans) simp
  have b: "(t + i) mod 512 = (if t + i < 512 then t + i else t + i - 512)"
    using assms(2) i by (intro mod512_cases) arith
  from assms(3) have "i < (if h + 512 - t < 512 then h + 512 - t else h + 512 - t - 512)"
    unfolding a .
  then show ?thesis unfolding b using assms(1,2) by (auto split: if_splits)
qed

lemma ring_head_pos:
  fixes h t :: nat
  assumes "h < 512" "t < 512"
  shows "(t + (h + 512 - t) mod 512) mod 512 = h"
proof -
  have a: "(h + 512 - t) mod 512 = (if h + 512 - t < 512 then h + 512 - t else h + 512 - t - 512)"
    using assms(1,2) by (intro mod512_cases) arith
  define c where "c = (if h + 512 - t < 512 then h + 512 - t else h + 512 - t - 512)"
  have c: "c < 512" "t + c = h \<or> t + c = h + 512"
    using assms by (auto simp: c_def)
  have b: "(t + c) mod 512 = (if t + c < 512 then t + c else t + c - 512)"
    using assms(2) c(1) by (intro mod512_cases) arith
  show ?thesis unfolding a c_def[symmetric] b using c assms by auto
qed

lemma ring_succ_head:
  fixes h t :: nat
  assumes "h < 512" "t < 512" "(h + 512 - t) mod 512 \<noteq> 511"
  shows "((h + 1) mod 512 + 512 - t) mod 512 = Suc ((h + 512 - t) mod 512)"
proof -
  have a: "(h + 512 - t) mod 512 = (if h + 512 - t < 512 then h + 512 - t else h + 512 - t - 512)"
    using assms(1,2) by (intro mod512_cases) arith
  have b: "(h + 1) mod 512 = (if h + 1 < 512 then h + 1 else h + 1 - 512)"
    using assms(1) by (intro mod512_cases) arith
  define h' where "h' = (if h + 1 < 512 then h + 1 else h + 1 - 512)"
  have h': "h' < 512" using assms(1) by (auto simp: h'_def)
  have c: "(h' + 512 - t) mod 512 = (if h' + 512 - t < 512 then h' + 512 - t else h' + 512 - t - 512)"
    using h' assms(2) by (intro mod512_cases) arith
  from assms(3) have "(if h + 512 - t < 512 then h + 512 - t else h + 512 - t - 512) \<noteq> 511"
    unfolding a .
  then show ?thesis unfolding a b h'_def[symmetric] c using assms(1,2)
    by (auto simp: h'_def split: if_splits)
qed

lemma ring_succ_tail:
  fixes h t :: nat
  assumes "h < 512" "t < 512" "(h + 512 - t) mod 512 = Suc k"
  shows "(h + 512 - (t + 1) mod 512) mod 512 = k"
proof -
  have a: "(h + 512 - t) mod 512 = (if h + 512 - t < 512 then h + 512 - t else h + 512 - t - 512)"
    using assms(1,2) by (intro mod512_cases) arith
  have b: "(t + 1) mod 512 = (if t + 1 < 512 then t + 1 else t + 1 - 512)"
    using assms(2) by (intro mod512_cases) arith
  define t' where "t' = (if t + 1 < 512 then t + 1 else t + 1 - 512)"
  have t': "t' < 512" using assms(2) by (auto simp: t'_def)
  have c: "(h + 512 - t') mod 512 = (if h + 512 - t' < 512 then h + 512 - t' else h + 512 - t' - 512)"
    using t' assms(1) by (intro mod512_cases) arith
  from assms(3) have "(if h + 512 - t < 512 then h + 512 - t else h + 512 - t - 512) = Suc k"
    unfolding a .
  then show ?thesis unfolding b t'_def[symmetric] c using assms(1,2)
    by (auto simp: t'_def split: if_splits)
qed

lemma ring_empty:
  fixes h t :: nat
  assumes "h < 512" "t < 512"
  shows "(h + 512 - t) mod 512 = 0 \<longleftrightarrow> h = t"
proof -
  have a: "(h + 512 - t) mod 512 = (if h + 512 - t < 512 then h + 512 - t else h + 512 - t - 512)"
    using assms(1,2) by (intro mod512_cases) arith
  show ?thesis unfolding a using assms by (auto split: if_splits)
qed

lemma ring_full:
  fixes h t :: nat
  assumes "h < 512" "t < 512"
  shows "(h + 512 - t) mod 512 = 511 \<longleftrightarrow> (h + 1) mod 512 = t"
proof -
  have a: "(h + 512 - t) mod 512 = (if h + 512 - t < 512 then h + 512 - t else h + 512 - t - 512)"
    using assms(1,2) by (intro mod512_cases) arith
  have b: "(h + 1) mod 512 = (if h + 1 < 512 then h + 1 else h + 1 - 512)"
    using assms(1) by (intro mod512_cases) arith
  show ?thesis unfolding a b using assms by (auto split: if_splits)
qed

lemma unat_mod_idx:
  "unat (word_of_nat (n mod UART_RX_BUFFER_SIZE) :: 16 word) = n mod UART_RX_BUFFER_SIZE"
  by (simp add: UART_RX_BUFFER_SIZE_def unat_of_nat)

lemma rb_empty_iff: "rb_wf b \<Longrightarrow> (head b = tail b) \<longleftrightarrow> rb_count b = 0"
  using ring_empty[of "unat (head b)" "unat (tail b)"]
  by (simp add: rb_wf_def rb_count_def UART_RX_BUFFER_SIZE_def word_unat_eq_iff)

lemma rb_full_iff:
  assumes "rb_wf b"
  shows "((word_of_nat ((unat (head b) + 1) mod UART_RX_BUFFER_SIZE) :: 16 word) = tail b)
     \<longleftrightarrow> rb_count b = UART_RX_BUFFER_SIZE - 1"
proof -
  have "((word_of_nat ((unat (head b) + 1) mod UART_RX_BUFFER_SIZE) :: 16 word) = tail b)
      \<longleftrightarrow> (unat (head b) + 1) mod UART_RX_BUFFER_SIZE = unat (tail b)"
    unfolding word_unat_eq_iff unat_mod_idx ..
  also have "\<dots> \<longleftrightarrow> (unat (head b) + 1) mod 512 = unat (tail b)"
    by (simp only: UART_RX_BUFFER_SIZE_def)
  also have "\<dots> \<longleftrightarrow> (unat (head b) + 512 - unat (tail b)) mod 512 = 511"
    using assms ring_full[of "unat (head b)" "unat (tail b)"]
    by (simp add: rb_wf_def UART_RX_BUFFER_SIZE_def)
  finally show ?thesis by (simp add: rb_count_def UART_RX_BUFFER_SIZE_def)
qed

lemma rb_contents_nth:
  "i < rb_count b \<Longrightarrow> rb_contents b ! i = buffer b ! ((unat (tail b) + i) mod UART_RX_BUFFER_SIZE)"
  by (simp add: rb_contents_def)

lemma length_rb_contents: "length (rb_contents b) = rb_count b"
  by (simp add: rb_contents_def)

lemma put_full:
  assumes "rb_wf b" "rb_count b = UART_RX_BUFFER_SIZE - 1"
  shows "uart_buffer_put b c = (False, b\<lparr>overflow := True\<rparr>)"
  using assms rb_full_iff[of b] by (simp add: uart_buffer_put_def Let_def)

lemma put_ok:
  assumes wf: "rb_wf b" and nf: "rb_count b \<noteq> UART_RX_BUFFER_SIZE - 1"
  shows "\<exists>b'. uart_buffer_put b c = (True, b') \<and> rb_wf b' \<and> rb_contents b' = rb_contents b @ [c]
           \<and> overflow b' = overflow b \<and> tail b' = tail b"
proof -
  define nh :: "16 word" where "nh = word_of_nat ((unat (head b) + 1) mod UART_RX_BUFFER_SIZE)"
  define b' where "b' = b\<lparr>buffer := (buffer b)[unat (head b) := c], head := nh\<rparr>"
  have nh: "unat nh = (unat (head b) + 1) mod 512"
    unfolding nh_def unat_mod_idx by (simp only: UART_RX_BUFFER_SIZE_def)
  have put: "uart_buffer_put b c = (True, b')"
    using wf nf rb_full_iff[of b] by (simp add: uart_buffer_put_def Let_def b'_def nh_def)
  have wf': "rb_wf b'"
    using wf nh by (simp add: rb_wf_def b'_def UART_RX_BUFFER_SIZE_def)
  have "rb_count b' = (unat nh + 512 - unat (tail b)) mod 512"
    by (simp add: rb_count_def b'_def UART_RX_BUFFER_SIZE_def)
  also have "\<dots> = Suc ((unat (head b) + 512 - unat (tail b)) mod 512)"
    unfolding nh using wf nf
    by (intro ring_succ_head) (simp_all add: rb_wf_def rb_count_def UART_RX_BUFFER_SIZE_def)
  finally have cnt: "rb_count b' = Suc (rb_count b)"
    by (simp add: rb_count_def UART_RX_BUFFER_SIZE_def)
  have hd_pos: "(unat (tail b) + rb_count b) mod UART_RX_BUFFER_SIZE = unat (head b)"
    using wf ring_head_pos[of "unat (head b)" "unat (tail b)"]
    by (simp add: rb_wf_def rb_count_def UART_RX_BUFFER_SIZE_def)
  have other: "(unat (tail b) + i) mod UART_RX_BUFFER_SIZE \<noteq> unat (head b)" if "i < rb_count b" for i
    using wf that ring_other_pos[of "unat (head b)" "unat (tail b)" i]
    by (simp add: rb_wf_def rb_count_def UART_RX_BUFFER_SIZE_def)
  have sel: "buffer b' = (buffer b)[unat (head b) := c]" "tail b' = tail b" "overflow b' = overflow b"
    by (simp_all add: b'_def)
  have "rb_contents b' = rb_contents b @ [c]"
  proof (rule nth_equalityI)
    show "length (rb_contents b') = length (rb_contents b @ [c])"
      by (simp add: length_rb_contents cnt)
  next
    fix i assume "i < length (rb_contents b')"
    then have i: "i < Suc (rb_count b)" by (simp add: length_rb_contents cnt)
    show "rb_contents b' ! i = (rb_contents b @ [c]) ! i"
    proof (cases "i < rb_count b")
      case True
      then show ?thesis
        using other[OF True] i
        by (simp add: rb_contents_nth cnt nth_append length_rb_contents sel)
    next
      case False
      with i have "i = rb_count b" by simp
      then show ?thesis
        using hd_pos wf
        by (simp add: rb_contents_nth cnt nth_append length_rb_contents rb_wf_def sel)
    qed
  qed
  with put wf' sel show ?thesis by simp
qed

lemma get_empty:
  assumes "rb_wf b" "rb_contents b = []"
  shows "uart_buffer_get b = (None, b)"
proof -
  have "rb_count b = 0" using assms(2) length_rb_contents[of b] by simp
  then show ?thesis using rb_empty_iff[OF assms(1)] by (simp add: uart_buffer_get_def)
qed

lemma get_nonempty:
  assumes wf: "rb_wf b" and ne: "rb_contents b = x # xs"
  shows "\<exists>b'. uart_buffer_get b = (Some x, b') \<and> rb_wf b' \<and> rb_contents b' = xs
           \<and> overflow b' = overflow b \<and> head b' = head b \<and> buffer b' = buffer b"
proof -
  define nt :: "16 word" where "nt = word_of_nat ((unat (tail b) + 1) mod UART_RX_BUFFER_SIZE)"
  define b' where "b' = b\<lparr>tail := nt\<rparr>"
  have nt: "unat nt = (unat (tail b) + 1) mod 512"
    unfolding nt_def unat_mod_idx by (simp only: UART_RX_BUFFER_SIZE_def)
  have cnt: "rb_count b = Suc (length xs)" using ne length_rb_contents[of b] by simp
  then have "head b \<noteq> tail b" using rb_empty_iff[OF wf] by simp
  moreover have "x = buffer b ! unat (tail b)"
    using rb_contents_nth[of 0 b] cnt ne wf by (simp add: rb_wf_def)
  ultimately have get: "uart_buffer_get b = (Some x, b')"
    by (simp add: uart_buffer_get_def b'_def nt_def)
  have wf': "rb_wf b'"
    using wf nt by (simp add: rb_wf_def b'_def UART_RX_BUFFER_SIZE_def)
  have sel: "buffer b' = buffer b" "head b' = head b" "overflow b' = overflow b" "tail b' = nt"
    by (simp_all add: b'_def)
  have "rb_count b' = (unat (head b) + 512 - (unat (tail b) + 1) mod 512) mod 512"
    by (simp add: rb_count_def sel nt UART_RX_BUFFER_SIZE_def)
  also have "\<dots> = length xs"
    using wf cnt by (intro ring_succ_tail) (simp_all add: rb_wf_def rb_count_def UART_RX_BUFFER_SIZE_def)
  finally have cnt': "rb_count b' = length xs" .
  have "rb_contents b' = xs"
  proof (rule nth_equalityI)
    show "length (rb_contents b') = length xs" by (simp add: length_rb_contents cnt')
  next
    fix i assume "i < length (rb_contents b')"
    then have i: "i < length xs" by (simp add: length_rb_contents cnt')
    have "rb_contents b' ! i = buffer b ! ((unat (tail b) + Suc i) mod UART_RX_BUFFER_SIZE)"
      using i by (simp add: rb_contents_nth cnt' sel nt UART_RX_BUFFER_SIZE_def mod_simps)
    also have "\<dots> = rb_contents b ! Suc i"
      using i cnt by (simp add: rb_contents_nth)
    finally show "rb_contents b' ! i = xs ! i" using ne by simp
  qed
  with get wf' sel show ?thesis by simp
qed

lemma get_line_loop_scan:
  assumes "rb_wf b"
  shows "\<exists>b'. uart_buffer_get_line_loop b max_len line
            = Some (fst (line_scan max_len line (rb_contents b)), b')
          \<and> rb_wf b' \<and> rb_contents b' = snd (line_scan max_len line (rb_contents b))
          \<and> overflow b' = overflow b"
  using assms
proof (induction "rb_contents b" arbitrary: b line)
  case Nil
  then have "uart_buffer_get b = (None, b)" by (simp add: get_empty)
  with Nil show ?case
    by (subst uart_buffer_get_line_loop.simps) (simp add: Nil(1)[symmetric])
next
  case (Cons x xs)
  from get_nonempty[OF Cons.prems Cons.hyps(2)[symmetric]]
  obtain b1 where g: "uart_buffer_get b = (Some x, b1)" and wf1: "rb_wf b1"
    and c1: "rb_contents b1 = xs" and o1: "overflow b1 = overflow b" by blast
  from Cons.hyps(1)[OF c1[symmetric] wf1]
  have ih: "\<exists>b'. uart_buffer_get_line_loop b1 max_len l
            = Some (fst (line_scan max_len l xs), b')
          \<and> rb_wf b' \<and> rb_contents b' = snd (line_scan max_len l xs)
          \<and> overflow b' = overflow b1" for l
    using c1 by simp
  show ?case
    using ih[of line] ih[of "line @ [x]"] g wf1 c1 o1 Cons.prems
    by (subst uart_buffer_get_line_loop.simps) (auto simp: Cons.hyps(2)[symmetric])
qed

section \<open>Ring buffer: first-in first-out order and overflow\<close>

lemma rb_wf_init:
  "length (buffer b0) = UART_RX_BUFFER_SIZE \<Longrightarrow> rb_wf (uart_buffer_init b0)"
  by (simp add: rb_wf_def uart_buffer_init_def UART_RX_BUFFER_SIZE_def)

lemma rb_contents_init: "rb_contents (uart_buffer_init b0) = []"
  by (simp add: rb_contents_def rb_count_def uart_buffer_init_def UART_RX_BUFFER_SIZE_def)

lemma overflow_init: "\<not> overflow (uart_buffer_init b0)"
  by (simp add: uart_buffer_init_def)

lemma put_all_ok:
  assumes "rb_wf b" "length (rb_contents b) + length cs \<le> UART_RX_BUFFER_SIZE - 1"
  shows "\<exists>b'. put_all b cs = (replicate (length cs) True, b') \<and> rb_wf b'
            \<and> rb_contents b' = rb_contents b @ cs \<and> overflow b' = overflow b"
  using assms
proof (induction cs arbitrary: b)
  case Nil
  then show ?case by simp
next
  case (Cons c cs)
  then have "rb_count b \<noteq> UART_RX_BUFFER_SIZE - 1"
    by (simp add: length_rb_contents)
  from put_ok[OF Cons.prems(1) this, of c]
  obtain b1 where p: "uart_buffer_put b c = (True, b1)" and wf1: "rb_wf b1"
    and c1: "rb_contents b1 = rb_contents b @ [c]" and o1: "overflow b1 = overflow b"
    by blast
  have "length (rb_contents b1) + length cs \<le> UART_RX_BUFFER_SIZE - 1"
    using Cons.prems(2) c1 by simp
  from Cons.IH[OF wf1 this] p c1 o1 show ?case by auto
qed

lemma get_n_contents:
  assumes "rb_wf b"
  shows "\<exists>b'. get_n n b = (map Some (take n (rb_contents b))
                            @ replicate (n - length (rb_contents b)) None, b')
            \<and> rb_wf b' \<and> rb_contents b' = drop n (rb_contents b)
            \<and> overflow b' = overflow b"
  using assms
proof (induction n arbitrary: b)
  case 0
  then show ?case by simp
next
  case (Suc n)
  show ?case
  proof (cases "rb_contents b")
    case Nil
    then have g: "uart_buffer_get b = (None, b)" using Suc.prems by (simp add: get_empty)
    from Suc.IH[OF Suc.prems] Nil g show ?thesis
      by (auto simp: replicate_append_same)
  next
    case (Cons x xs)
    from get_nonempty[OF Suc.prems Cons]
    obtain b1 where g: "uart_buffer_get b = (Some x, b1)" and wf1: "rb_wf b1"
      and c1: "rb_contents b1 = xs" and o1: "overflow b1 = overflow b" by blast
    from Suc.IH[OF wf1] g c1 o1 Cons show ?thesis by auto
  qed
qed

lemma put_keeps_overflow: "overflow b \<Longrightarrow> overflow (snd (uart_buffer_put b c))"
  by (simp add: uart_buffer_put_def Let_def)

lemma get_keeps_overflow: "overflow b \<Longrightarrow> overflow (snd (uart_buffer_get b))"
  by (simp add: uart_buffer_get_def)

lemma run_ops_keeps_overflow: "overflow b \<Longrightarrow> overflow (snd (run_ops b ops))"
proof (induction b ops rule: run_ops.induct)
  case (1 b)
  then show ?case by simp
next
  case (2 b c ops)
  from put_keeps_overflow[OF "2.prems", of c] "2.IH"
  show ?case by (auto split: prod.splits)
next
  case (3 b ops)
  from get_keeps_overflow[OF "3.prems"] "3.IH"
  show ?case by (auto split: prod.splits)
qed

lemma run_ops_refines_queue:
  assumes "rb_wf b"
  shows "\<exists>b'. run_ops b ops = (fst (queue_ops (rb_contents b) ops), b') \<and> rb_wf b'
            \<and> rb_contents b' = snd (queue_ops (rb_contents b) ops)"
  using assms
proof (induction ops arbitrary: b)
  case Nil
  then show ?case by simp
next
  case (Cons op ops)
  show ?case
  proof (cases op)
    case (Put c)
    show ?thesis
    proof (cases "rb_count b = UART_RX_BUFFER_SIZE - 1")
      case True
      have wf': "rb_wf (b\<lparr>overflow := True\<rparr>)" using Cons.prems by (simp add: rb_wf_def)
      have c': "rb_contents (b\<lparr>overflow := True\<rparr>) = rb_contents b"
        by (simp add: rb_contents_def rb_count_def)
      from Cons.IH[OF wf'] put_full[OF Cons.prems True, of c] c' True Put
      show ?thesis by (auto simp: length_rb_contents split: prod.splits)
    next
      case False
      from put_ok[OF Cons.prems False, of c]
      obtain b1 where p: "uart_buffer_put b c = (True, b1)" and wf1: "rb_wf b1"
        and c1: "rb_contents b1 = rb_contents b @ [c]" by blast
      from Cons.IH[OF wf1] p c1 False Put
      show ?thesis by (auto simp: length_rb_contents split: prod.splits)
    qed
  next
    case Get
    show ?thesis
    proof (cases "rb_contents b")
      case Nil
      from Cons.IH[OF Cons.prems] get_empty[OF Cons.prems Nil] Nil Get
      show ?thesis by (auto split: prod.splits)
    next
      case (Cons x xs)
      from get_nonempty[OF Cons.prems Cons]
      obtain b1 where g: "uart_buffer_get b = (Some x, b1)" and wf1: "rb_wf b1"
        and c1: "rb_contents b1 = xs" by blast
      from Cons.IH[OF wf1] g c1 Cons Get
      show ?thesis by (auto split: prod.splits)
    qed
  qed
qed

text \<open>
  Claim C4. On a freshly initialised ring buffer of capacity \<open>C = UART_RX_BUFFER_SIZE\<close>:
  putting \<open>C - 1\<close> bytes succeeds for each of them and draining returns the same bytes in
  the same order, after which the buffer is empty; the \<open>C\<close>-th put without draining
  returns false, sets the overflow flag (which was clear, and which no later put or get
  clears), leaves the array and both indices unchanged, and its byte is never returned:
  draining yields the first \<open>C - 1\<close> bytes and then nothing. A get reports "empty" exactly
  when \<open>head = tail\<close>.
\<close>

theorem ring_buffer_fifo_overflow:
  assumes arr: "length (buffer b0) = UART_RX_BUFFER_SIZE"
      and len: "length bs = UART_RX_BUFFER_SIZE - 1"
  shows "(case put_all (uart_buffer_init b0) bs of (oks, b1) \<Rightarrow>
            oks = replicate (UART_RX_BUFFER_SIZE - 1) True
          \<and> (case get_n (UART_RX_BUFFER_SIZE - 1) b1 of (rs, b2) \<Rightarrow>
                rs = map Some bs \<and> uart_buffer_get b2 = (None, b2))
          \<and> (case uart_buffer_put b1 c of (ok, b1') \<Rightarrow>
                \<not> ok \<and> overflow b1' \<and> \<not> overflow b1
              \<and> buffer b1' = buffer b1 \<and> head b1' = head b1 \<and> tail b1' = tail b1
              \<and> fst (get_n UART_RX_BUFFER_SIZE b1') = map Some bs @ [None]
              \<and> (\<forall>ops. overflow (snd (run_ops b1' ops)))))
       \<and> (\<forall>b. (fst (uart_buffer_get b) = None) = (head b = tail b))"
proof -
  let ?i = "uart_buffer_init b0"
  have wf0: "rb_wf ?i" using arr by (rule rb_wf_init)
  have "length (rb_contents ?i) + length bs \<le> UART_RX_BUFFER_SIZE - 1"
    using len by (simp add: rb_contents_init)
  from put_all_ok[OF wf0 this]
  obtain b1 where p: "put_all ?i bs = (replicate (length bs) True, b1)" and wf1: "rb_wf b1"
    and c1: "rb_contents b1 = bs" and o1: "\<not> overflow b1"
    by (auto simp: rb_contents_init overflow_init)
  from get_n_contents[OF wf1, of "UART_RX_BUFFER_SIZE - 1"]
  obtain b2 where g: "get_n (UART_RX_BUFFER_SIZE - 1) b1 = (map Some bs, b2)"
    and wf2: "rb_wf b2" and c2: "rb_contents b2 = []"
    using c1 len by auto
  have e2: "uart_buffer_get b2 = (None, b2)" using wf2 c2 by (rule get_empty)
  have full: "rb_count b1 = UART_RX_BUFFER_SIZE - 1"
    using c1 len length_rb_contents[of b1] by simp
  let ?b1' = "b1\<lparr>overflow := True\<rparr>"
  have pf: "uart_buffer_put b1 c = (False, ?b1')" using wf1 full by (rule put_full)
  have wf1': "rb_wf ?b1'" using wf1 by (simp add: rb_wf_def)
  have c1': "rb_contents ?b1' = bs" using c1 by (simp add: rb_contents_def rb_count_def)
  from get_n_contents[OF wf1', of UART_RX_BUFFER_SIZE]
  have g': "fst (get_n UART_RX_BUFFER_SIZE ?b1') = map Some bs @ [None]"
    using c1' len by (auto simp: UART_RX_BUFFER_SIZE_def)
  have st: "overflow (snd (run_ops ?b1' ops))" for ops
    by (rule run_ops_keeps_overflow) simp
  have em: "(fst (uart_buffer_get b) = None) = (head b = tail b)" for b
    by (simp add: uart_buffer_get_def)
  show ?thesis
    using p g e2 pf g' st em o1 len by simp
qed

theorem ring_buffer_fifo_overflow_witness:
  "length (buffer zero_uart_buffer) = UART_RX_BUFFER_SIZE
   \<and> length (replicate 511 (CHR ''x'')) = UART_RX_BUFFER_SIZE - 1
   \<and> fst (put_all (uart_buffer_init zero_uart_buffer) (replicate 511 (CHR ''x'')))
       = replicate 511 True
   \<and> fst (get_n 511 (snd (put_all (uart_buffer_init zero_uart_buffer) (replicate 511 (CHR ''x'')))))
       = replicate 511 (Some (CHR ''x''))
   \<and> \<not> fst (uart_buffer_put
               (snd (put_all (uart_buffer_init zero_uart_buffer) (replicate 511 (CHR ''x''))))
               (CHR ''y''))"
proof -
  have h1: "length (buffer zero_uart_buffer) = UART_RX_BUFFER_SIZE"
    by (simp add: zero_uart_buffer_def UART_RX_BUFFER_SIZE_def)
  have h2: "length (replicate 511 (CHR ''x'')) = UART_RX_BUFFER_SIZE - 1"
    by (simp add: UART_RX_BUFFER_SIZE_def)
  from ring_buffer_fifo_overflow[OF h1 h2, of "CHR ''y''"] h1 h2
  show ?thesis
    by (auto simp: UART_RX_BUFFER_SIZE_def split: prod.splits)
qed

section \<open>Line reassembly\<close>

lemma line_result_nonempty: "line_result l \<noteq> Some []"
  by (simp add: line_result_def)

lemma line_scan_nonempty: "fst (line_scan max_len line cs) \<noteq> Some []"
  by (induction max_len line cs rule: line_scan.induct) (auto simp: line_result_nonempty)

lemma line_scan_skip:
  assumes "list_all is_terminator pre" "2 \<le> max_len"
  shows "line_scan max_len [] (pre @ xs) = line_scan max_len [] xs"
  using assms by (induction pre) (auto simp: is_terminator_def)

lemma line_scan_body:
  assumes "\<not> list_ex is_terminator body" "length line + length body + 1 \<le> max_len"
  shows "line_scan max_len line (body @ xs) = line_scan max_len (line @ body) xs"
  using assms
proof (induction body arbitrary: line)
  case Nil
  then show ?case by simp
next
  case (Cons c body)
  from Cons.prems have "line_scan max_len line ((c # body) @ xs)
        = line_scan max_len (line @ [c]) (body @ xs)"
    by (auto simp: is_terminator_def)
  also have "\<dots> = line_scan max_len ((line @ [c]) @ body) xs"
    using Cons.prems by (intro Cons.IH) auto
  finally show ?case by simp
qed

lemma line_scan_only_terminators:
  assumes "list_all is_terminator pre" "2 \<le> max_len"
  shows "line_scan max_len [] pre = (None, [])"
  using line_scan_skip[OF assms, of "[]"] by (simp add: line_result_def)

lemma line_scan_complete:
  assumes "list_all is_terminator pre" "\<not> list_ex is_terminator body" "body \<noteq> []"
    "is_terminator t" "length body + 2 \<le> max_len"
  shows "line_scan max_len [] (pre @ body @ t # rest) = (Some body, rest)"
proof -
  have "line_scan max_len [] (pre @ body @ t # rest) = line_scan max_len [] (body @ t # rest)"
    using assms by (intro line_scan_skip) auto
  also have "\<dots> = line_scan max_len ([] @ body) (t # rest)"
    using assms by (intro line_scan_body) auto
  also have "\<dots> = (Some body, rest)"
    using assms by (auto simp: is_terminator_def)
  finally show ?thesis .
qed

lemma line_scan_partial:
  assumes "list_all is_terminator pre" "\<not> list_ex is_terminator body" "body \<noteq> []"
    "length body + 1 \<le> max_len" "2 \<le> max_len"
  shows "line_scan max_len [] (pre @ body) = (Some body, [])"
proof -
  have "line_scan max_len [] (pre @ body) = line_scan max_len [] (body @ [])"
    using assms line_scan_skip[of pre max_len body] by simp
  also have "\<dots> = line_scan max_len ([] @ body) []"
    using assms by (intro line_scan_body) auto
  also have "\<dots> = (Some body, [])"
    using assms by (simp add: line_result_def)
  finally show ?thesis .
qed

lemma get_line_scan:
  assumes "rb_wf b"
  shows "\<exists>b'. uart_buffer_get_line b max_len
            = Some (fst (line_scan max_len [] (rb_contents b)), b')
          \<and> rb_wf b' \<and> rb_contents b' = snd (line_scan max_len [] (rb_contents b))"
  using get_line_loop_scan[OF assms, of max_len "[]"]
  by (auto simp: uart_buffer_get_line_def)

lemma feed_ok:
  assumes "length cs \<le> 511"
  shows "rb_wf (feed cs) \<and> rb_contents (feed cs) = cs"
proof -
  have wf0: "rb_wf (uart_buffer_init zero_uart_buffer)"
    by (rule rb_wf_init) (simp add: zero_uart_buffer_def UART_RX_BUFFER_SIZE_def)
  have "length (rb_contents (uart_buffer_init zero_uart_buffer)) + length cs \<le> UART_RX_BUFFER_SIZE - 1"
    using assms by (simp add: rb_contents_init UART_RX_BUFFER_SIZE_def)
  from put_all_ok[OF wf0 this] show ?thesis
    by (auto simp: feed_def rb_contents_init)
qed

lemma get_line_example:
  assumes "rb_wf b" "line_scan max_len [] (rb_contents b) = (r, cs)"
  shows "\<exists>b'. uart_buffer_get_line b max_len = Some (r, b') \<and> rb_wf b' \<and> rb_contents b' = cs"
  using get_line_scan[OF assms(1), of max_len] assms(2) by simp

lemma c_str_id: "CHR 0x00 \<notin> set xs \<Longrightarrow> c_str xs = xs"
  unfolding c_str_def by (induction xs) auto

lemma line_scan_bytes:
  "fst (line_scan max_len line cs) = Some l \<Longrightarrow> set l \<subseteq> set line \<union> set cs"
  by (induction max_len line cs rule: line_scan.induct)
     (auto simp: line_result_def split: if_splits)

lemma line_scan_full:
  assumes "list_all is_terminator pre" "\<not> list_ex is_terminator body" "body \<noteq> []"
    "length body + 1 = max_len"
  shows "line_scan max_len [] (pre @ body @ rest) = (Some body, rest)"
proof -
  from assms(3,4) have ml: "2 \<le> max_len" by (cases body) auto
  have "line_scan max_len [] (pre @ body @ rest) = line_scan max_len [] (body @ rest)"
    using assms(1) ml by (rule line_scan_skip)
  also have "\<dots> = line_scan max_len ([] @ body) rest"
    using assms by (intro line_scan_body) auto
  also have "\<dots> = (Some body, rest)"
    using assms(3,4) by (cases rest) (auto simp: line_result_def)
  finally show ?thesis .
qed

lemma get_line_c_string:
  assumes "rb_wf b" "CHR 0x00 \<notin> set (rb_contents b)"
  shows "\<exists>r b'. uart_buffer_get_line b max_len = Some (r, b')
           \<and> (case r of None \<Rightarrow> True | Some line \<Rightarrow> c_str line = line \<and> c_str line \<noteq> [])"
proof -
  from get_line_scan[OF assms(1), of max_len] obtain b' where
    g: "uart_buffer_get_line b max_len = Some (fst (line_scan max_len [] (rb_contents b)), b')"
    by blast
  show ?thesis
  proof (cases "fst (line_scan max_len [] (rb_contents b))")
    case None
    with g show ?thesis by simp
  next
    case (Some line)
    from line_scan_bytes[OF Some] assms(2) have "CHR 0x00 \<notin> set line" by auto
    then have "c_str line = line" by (rule c_str_id)
    moreover have "line \<noteq> []" using line_scan_nonempty[of max_len "[]" "rb_contents b"] Some by auto
    ultimately show ?thesis using g Some by simp
  qed
qed

lemma get_line_feed:
  assumes "length cs \<le> 511" "line_scan max_len [] cs = (r, rest)"
  shows "\<exists>b'. uart_buffer_get_line (feed cs) max_len = Some (r, b')
           \<and> rb_wf b' \<and> rb_contents b' = rest"
  using get_line_example[of "feed cs" max_len r rest] feed_ok[OF assms(1)] assms(2) by simp

text \<open>
  The string \<open>uart_buffer_get_line\<close> hands back is read by its callers up to the first NUL
  byte. A NUL byte that arrived on the UART is stored like any other byte: with a NUL, the
  letter A and a carriage return buffered, the function returns success with the two bytes
  NUL, A in \<open>line\<close>, which is the empty string to every reader of \<open>line\<close>.
\<close>

theorem get_line_returns_empty_string:
  "(case uart_buffer_get_line (feed [CHR 0x00, CHR ''A'', CHR 0x0D]) 256 of
      Some (Some line, b') \<Rightarrow> line = [CHR 0x00, CHR ''A''] \<and> c_str line = [] \<and> rb_contents b' = []
    | _ \<Rightarrow> False)"
proof -
  have "line_scan 256 [] [CHR 0x00, CHR ''A'', CHR 0x0D] = (Some [CHR 0x00, CHR ''A''], [])"
    by simp
  from get_line_feed[OF _ this] obtain b' where
    "uart_buffer_get_line (feed [CHR 0x00, CHR ''A'', CHR 0x0D]) 256 = Some (Some [CHR 0x00, CHR ''A''], b')"
    "rb_contents b' = []"
    by auto
  then show ?thesis by (simp add: c_str_def)
qed

text \<open>
  Claim C5 (amended). For every well-formed ring buffer and every \<open>max_len \<ge> 2\<close>,
  \<open>uart_buffer_get_line\<close> returns, and never returns success with zero bytes accumulated;
  when no NUL byte is buffered, the string it hands back is the accumulated bytes and is
  never empty. Terminators (CR, LF) read while nothing is accumulated are consumed silently:
  a buffer holding only terminators gives "no line" and is left empty. After leading
  terminators, a non-empty run of non-terminator bytes followed by a terminator is returned
  as the line, and the bytes after that terminator stay buffered; when the buffer runs out
  after the run, the run is returned as a partial line; when the run fills the line
  (\<open>max_len - 1\<close> bytes), it is returned and every later byte stays buffered. Each case has
  its own buffer and its own \<open>max_len\<close>. Buffered input \<open>AB\r\nCD\r\n\<close> yields \<open>AB\<close>, then
  \<open>CD\<close>, then no line; input \<open>\r\n\r\nXY\<close> yields \<open>XY\<close>, then no line; with \<open>max_len = 2\<close>
  the input \<open>AB\r\<close> yields \<open>A\<close>, then \<open>B\<close>, then no line.
\<close>

theorem uart_buffer_get_line_lines:
  assumes any: "rb_wf b" "2 \<le> max_len"
    and nonul: "rb_wf bn" "2 \<le> ml_n" "CHR 0x00 \<notin> set (rb_contents bn)"
    and only_terminators: "rb_wf bt" "2 \<le> ml_t" "list_all is_terminator (rb_contents bt)"
    and complete: "rb_wf bc" "rb_contents bc = pre_c @ body_c @ t_c # rest_c"
      "list_all is_terminator pre_c" "body_c \<noteq> []" "\<not> list_ex is_terminator body_c"
      "is_terminator t_c" "length body_c + 2 \<le> ml_c"
    and partial: "rb_wf bp" "rb_contents bp = pre_p @ body_p"
      "list_all is_terminator pre_p" "body_p \<noteq> []" "\<not> list_ex is_terminator body_p"
      "length body_p + 1 \<le> ml_p"
    and full: "rb_wf bf" "rb_contents bf = pre_f @ body_f @ rest_f"
      "list_all is_terminator pre_f" "body_f \<noteq> []" "\<not> list_ex is_terminator body_f"
      "length body_f + 1 = ml_f"
  shows "(\<exists>r b'. uart_buffer_get_line b max_len = Some (r, b') \<and> r \<noteq> Some [])
       \<and> (\<exists>r b'. uart_buffer_get_line bn ml_n = Some (r, b')
              \<and> (case r of None \<Rightarrow> True | Some line \<Rightarrow> c_str line = line \<and> c_str line \<noteq> []))
       \<and> (\<exists>b'. uart_buffer_get_line bt ml_t = Some (None, b') \<and> rb_contents b' = [])
       \<and> (\<exists>b'. uart_buffer_get_line bc ml_c = Some (Some body_c, b') \<and> rb_contents b' = rest_c)
       \<and> (\<exists>b'. uart_buffer_get_line bp ml_p = Some (Some body_p, b') \<and> rb_contents b' = [])
       \<and> (\<exists>b'. uart_buffer_get_line bf ml_f = Some (Some body_f, b') \<and> rb_contents b' = rest_f)
       \<and> (\<exists>b1 b2 b3.
             uart_buffer_get_line (feed (''AB'' @ [CHR 0x0D, CHR 0x0A] @ ''CD'' @ [CHR 0x0D, CHR 0x0A])) 256
               = Some (Some ''AB'', b1)
           \<and> uart_buffer_get_line b1 256 = Some (Some ''CD'', b2)
           \<and> uart_buffer_get_line b2 256 = Some (None, b3))
       \<and> (\<exists>b1 b2.
             uart_buffer_get_line (feed ([CHR 0x0D, CHR 0x0A, CHR 0x0D, CHR 0x0A] @ ''XY'')) 256
               = Some (Some ''XY'', b1)
           \<and> uart_buffer_get_line b1 256 = Some (None, b2))
       \<and> (\<exists>b1 b2 b3.
             uart_buffer_get_line (feed (''AB'' @ [CHR 0x0D])) 2 = Some (Some ''A'', b1)
           \<and> uart_buffer_get_line b1 2 = Some (Some ''B'', b2)
           \<and> uart_buffer_get_line b2 2 = Some (None, b3))"
proof -
  have p1: "\<exists>r b'. uart_buffer_get_line b max_len = Some (r, b') \<and> r \<noteq> Some []"
    using get_line_scan[OF any(1), of max_len] line_scan_nonempty by auto
  have p2: "\<exists>r b'. uart_buffer_get_line bn ml_n = Some (r, b')
              \<and> (case r of None \<Rightarrow> True | Some line \<Rightarrow> c_str line = line \<and> c_str line \<noteq> [])"
    using nonul(1,3) by (rule get_line_c_string)
  have p3: "\<exists>b'. uart_buffer_get_line bt ml_t = Some (None, b') \<and> rb_contents b' = []"
    using get_line_scan[OF only_terminators(1), of ml_t]
      line_scan_only_terminators[OF only_terminators(3,2)]
    by auto
  have p4: "\<exists>b'. uart_buffer_get_line bc ml_c = Some (Some body_c, b') \<and> rb_contents b' = rest_c"
    using get_line_scan[OF complete(1), of ml_c]
      line_scan_complete[OF complete(3) complete(5) complete(4) complete(6) complete(7), of rest_c]
      complete(2)
    by auto
  have mlp: "2 \<le> ml_p" using partial(4,6) by (cases body_p) auto
  have p5: "\<exists>b'. uart_buffer_get_line bp ml_p = Some (Some body_p, b') \<and> rb_contents b' = []"
    using get_line_scan[OF partial(1), of ml_p]
      line_scan_partial[OF partial(3) partial(5) partial(4) partial(6) mlp] partial(2)
    by auto
  have p6: "\<exists>b'. uart_buffer_get_line bf ml_f = Some (Some body_f, b') \<and> rb_contents b' = rest_f"
    using get_line_scan[OF full(1), of ml_f]
      line_scan_full[OF full(3) full(5) full(4) full(6), of rest_f] full(2)
    by auto
  have p7: "\<exists>b1 b2 b3.
             uart_buffer_get_line (feed (''AB'' @ [CHR 0x0D, CHR 0x0A] @ ''CD'' @ [CHR 0x0D, CHR 0x0A])) 256
               = Some (Some ''AB'', b1)
           \<and> uart_buffer_get_line b1 256 = Some (Some ''CD'', b2)
           \<and> uart_buffer_get_line b2 256 = Some (None, b3)"
  proof -
    let ?s = "''AB'' @ [CHR 0x0D, CHR 0x0A] @ ''CD'' @ [CHR 0x0D, CHR 0x0A]"
    have "line_scan 256 [] ?s = (Some ''AB'', CHR 0x0A # ''CD'' @ [CHR 0x0D, CHR 0x0A])"
      by simp
    from get_line_feed[OF _ this]
    obtain b1 where g1: "uart_buffer_get_line (feed ?s) 256 = Some (Some ''AB'', b1)"
      and wf1: "rb_wf b1" and c1: "rb_contents b1 = CHR 0x0A # ''CD'' @ [CHR 0x0D, CHR 0x0A]"
      by auto
    have "line_scan 256 [] (rb_contents b1) = (Some ''CD'', [CHR 0x0A])"
      unfolding c1 by simp
    from get_line_example[OF wf1 this]
    obtain b2 where g2: "uart_buffer_get_line b1 256 = Some (Some ''CD'', b2)"
      and wf2: "rb_wf b2" and c2: "rb_contents b2 = [CHR 0x0A]"
      by blast
    have "line_scan 256 [] (rb_contents b2) = (None, [])"
      unfolding c2 by (simp add: line_result_def)
    from get_line_example[OF wf2 this] g1 g2 show ?thesis by blast
  qed
  have p8: "\<exists>b1 b2.
             uart_buffer_get_line (feed ([CHR 0x0D, CHR 0x0A, CHR 0x0D, CHR 0x0A] @ ''XY'')) 256
               = Some (Some ''XY'', b1)
           \<and> uart_buffer_get_line b1 256 = Some (None, b2)"
  proof -
    let ?s = "[CHR 0x0D, CHR 0x0A, CHR 0x0D, CHR 0x0A] @ ''XY''"
    have "line_scan 256 [] ?s = (Some ''XY'', [])"
      by (simp add: line_result_def)
    from get_line_feed[OF _ this]
    obtain b1 where g1: "uart_buffer_get_line (feed ?s) 256 = Some (Some ''XY'', b1)"
      and wf1: "rb_wf b1" and c1: "rb_contents b1 = []"
      by auto
    have "line_scan 256 [] (rb_contents b1) = (None, [])"
      unfolding c1 by (simp add: line_result_def)
    from get_line_example[OF wf1 this] g1 show ?thesis by blast
  qed
  have p9: "\<exists>b1 b2 b3.
             uart_buffer_get_line (feed (''AB'' @ [CHR 0x0D])) 2 = Some (Some ''A'', b1)
           \<and> uart_buffer_get_line b1 2 = Some (Some ''B'', b2)
           \<and> uart_buffer_get_line b2 2 = Some (None, b3)"
  proof -
    let ?s = "''AB'' @ [CHR 0x0D]"
    have "line_scan 2 [] ?s = (Some ''A'', ''B'' @ [CHR 0x0D])"
      by (simp add: line_result_def)
    from get_line_feed[OF _ this]
    obtain b1 where g1: "uart_buffer_get_line (feed ?s) 2 = Some (Some ''A'', b1)"
      and wf1: "rb_wf b1" and c1: "rb_contents b1 = ''B'' @ [CHR 0x0D]"
      by auto
    have "line_scan 2 [] (rb_contents b1) = (Some ''B'', [CHR 0x0D])"
      unfolding c1 by (simp add: line_result_def)
    from get_line_example[OF wf1 this]
    obtain b2 where g2: "uart_buffer_get_line b1 2 = Some (Some ''B'', b2)"
      and wf2: "rb_wf b2" and c2: "rb_contents b2 = [CHR 0x0D]"
      by blast
    have "line_scan 2 [] (rb_contents b2) = (None, [])"
      unfolding c2 by (simp add: line_result_def)
    from get_line_example[OF wf2 this] g1 g2 show ?thesis by blast
  qed
  from p1 p2 p3 p4 p5 p6 p7 p8 p9 show ?thesis by blast
qed

theorem uart_buffer_get_line_lines_witness:
  "rb_wf (feed (''A'' @ [CHR 0x0D])) \<and> 2 \<le> (2::nat)
   \<and> CHR 0x00 \<notin> set (rb_contents (feed (''A'' @ [CHR 0x0D])))
   \<and> rb_wf (feed [CHR 0x0D]) \<and> list_all is_terminator (rb_contents (feed [CHR 0x0D]))
   \<and> rb_wf (feed ([CHR 0x0D] @ ''A'' @ CHR 0x0A # ''Z''))
   \<and> rb_contents (feed ([CHR 0x0D] @ ''A'' @ CHR 0x0A # ''Z'')) = [CHR 0x0D] @ ''A'' @ CHR 0x0A # ''Z''
   \<and> list_all is_terminator [CHR 0x0D] \<and> ''A'' \<noteq> [] \<and> \<not> list_ex is_terminator ''A''
   \<and> is_terminator (CHR 0x0A) \<and> length ''A'' + 2 \<le> (3::nat)
   \<and> rb_wf (feed ([CHR 0x0D] @ ''A''))
   \<and> rb_contents (feed ([CHR 0x0D] @ ''A'')) = [CHR 0x0D] @ ''A''
   \<and> length ''A'' + 1 \<le> (2::nat)
   \<and> rb_wf (feed ([CHR 0x0D] @ ''A'' @ ''Z''))
   \<and> rb_contents (feed ([CHR 0x0D] @ ''A'' @ ''Z'')) = [CHR 0x0D] @ ''A'' @ ''Z''
   \<and> length ''A'' + 1 = (2::nat)
   \<and> (\<exists>r b'. uart_buffer_get_line (feed (''A'' @ [CHR 0x0D])) 2 = Some (r, b') \<and> r \<noteq> Some [])
   \<and> (\<exists>r b'. uart_buffer_get_line (feed (''A'' @ [CHR 0x0D])) 2 = Some (r, b')
          \<and> (case r of None \<Rightarrow> True | Some line \<Rightarrow> c_str line = line \<and> c_str line \<noteq> []))
   \<and> (\<exists>b'. uart_buffer_get_line (feed [CHR 0x0D]) 2 = Some (None, b') \<and> rb_contents b' = [])
   \<and> (\<exists>b'. uart_buffer_get_line (feed ([CHR 0x0D] @ ''A'' @ CHR 0x0A # ''Z'')) 3 = Some (Some ''A'', b')
            \<and> rb_contents b' = ''Z'')
   \<and> (\<exists>b'. uart_buffer_get_line (feed ([CHR 0x0D] @ ''A'')) 2 = Some (Some ''A'', b')
            \<and> rb_contents b' = [])
   \<and> (\<exists>b'. uart_buffer_get_line (feed ([CHR 0x0D] @ ''A'' @ ''Z'')) 2 = Some (Some ''A'', b')
            \<and> rb_contents b' = ''Z'')"
proof -
  have f1: "rb_wf (feed (''A'' @ [CHR 0x0D]))" "rb_contents (feed (''A'' @ [CHR 0x0D])) = ''A'' @ [CHR 0x0D]"
    using feed_ok[of "''A'' @ [CHR 0x0D]"] by simp_all
  have f2: "rb_wf (feed [CHR 0x0D])" "rb_contents (feed [CHR 0x0D]) = [CHR 0x0D]"
    using feed_ok[of "[CHR 0x0D]"] by simp_all
  have f3: "rb_wf (feed ([CHR 0x0D] @ ''A'' @ CHR 0x0A # ''Z''))"
    "rb_contents (feed ([CHR 0x0D] @ ''A'' @ CHR 0x0A # ''Z'')) = [CHR 0x0D] @ ''A'' @ CHR 0x0A # ''Z''"
    using feed_ok[of "[CHR 0x0D] @ ''A'' @ CHR 0x0A # ''Z''"] by simp_all
  have f4: "rb_wf (feed ([CHR 0x0D] @ ''A''))"
    "rb_contents (feed ([CHR 0x0D] @ ''A'')) = [CHR 0x0D] @ ''A''"
    using feed_ok[of "[CHR 0x0D] @ ''A''"] by simp_all
  have f5: "rb_wf (feed ([CHR 0x0D] @ ''A'' @ ''Z''))"
    "rb_contents (feed ([CHR 0x0D] @ ''A'' @ ''Z'')) = [CHR 0x0D] @ ''A'' @ ''Z''"
    using feed_ok[of "[CHR 0x0D] @ ''A'' @ ''Z''"] by simp_all
  have n: "CHR 0x00 \<notin> set (rb_contents (feed (''A'' @ [CHR 0x0D])))"
    unfolding f1(2) by simp
  have t2: "list_all is_terminator (rb_contents (feed [CHR 0x0D]))"
    unfolding f2(2) by (simp add: is_terminator_def)
  have t: "list_all is_terminator [CHR 0x0D]" "\<not> list_ex is_terminator ''A''"
    "is_terminator (CHR 0x0A)"
    by (simp_all add: is_terminator_def)
  have a: "''A'' \<noteq> []" by simp
  have l: "(2::nat) \<le> 2" "length ''A'' + 2 \<le> (3::nat)" "length ''A'' + 1 \<le> (2::nat)"
    "length ''A'' + 1 = (2::nat)"
    by simp_all
  from uart_buffer_get_line_lines[OF f1(1) l(1) f1(1) l(1) n f2(1) l(1) t2
      f3(1) f3(2) t(1) a t(2) t(3) l(2) f4(1) f4(2) t(1) a t(2) l(3)
      f5(1) f5(2) t(1) a t(2) l(4)]
  show ?thesis using f1 f2 f3 f4 f5 n t2 t by simp
qed
section \<open>Response classification and command classifiers\<close>

lemma strstr_sublist: "(strstr h n \<noteq> None) = sublist n h"
  by (induction h) (auto simp: sublist_Cons_right)

lemma is_response_ok_iff:
  "is_response_ok (Some r)
     = ((\<not> sublist ''+ERR'' r \<and> \<not> sublist ''ERROR'' r) \<and> (sublist ''OK'' r \<or> sublist ''+OK'' r))"
  unfolding is_response_ok_def option.case strstr_sublist by simp

lemma ok_err_example: "\<not> is_response_ok (Some ''+OK but +ERR'')"
  by (simp add: is_response_ok_def)

lemma of_char_tolower:
  "(of_char (c_tolower c) :: nat) = (if c_isupper c then of_char c + 32 else of_char c)"
proof (cases "c_isupper c")
  case True
  then have "(of_char c :: nat) + 32 < 256" by (simp add: c_isupper_def)
  then have "(of_char (char_of ((of_char c :: nat) + 32)) :: nat) = of_char c + 32"
    by (simp only: of_char_of mod_less)
  with True show ?thesis by (simp only: c_tolower_def if_True)
next
  case False
  then show ?thesis by (simp only: c_tolower_def if_False)
qed

lemma tolower_eq_iff: "(c_tolower a = c_tolower b) = same_letter a b"
proof -
  have "(c_tolower a = c_tolower b) = ((of_char (c_tolower a) :: nat) = of_char (c_tolower b))"
    by (simp only: of_char_eq_iff)
  also have "\<dots> = ((if c_isupper a then of_char a + 32 else of_char a)
                   = (if c_isupper b then of_char b + 32 else (of_char b :: nat)))"
    by (simp only: of_char_tolower)
  also have "\<dots> = ((of_char a :: nat) = of_char b
                 \<or> (c_isupper a \<and> (of_char b :: nat) = of_char a + 32)
                 \<or> (c_isupper b \<and> (of_char a :: nat) = of_char b + 32))"
    unfolding c_isupper_def by (cases "(65::nat) \<le> of_char a \<and> of_char a \<le> (90::nat)";
        cases "(65::nat) \<le> of_char b \<and> of_char b \<le> (90::nat)") auto
  also have "\<dots> = same_letter a b"
    by (simp only: same_letter_def of_char_eq_iff)
  finally show ?thesis .
qed

lemma tolower_not_nul: "c \<noteq> CHR 0x00 \<Longrightarrow> (of_char (c_tolower c) :: nat) \<noteq> 0"
proof -
  assume "c \<noteq> CHR 0x00"
  then have "(of_char c :: nat) \<noteq> of_char (CHR 0x00)" by (simp only: of_char_eq_iff not_False_eq_True)
  then have nz: "(of_char c :: nat) \<noteq> 0" by simp
  show ?thesis
    unfolding of_char_tolower using nz by simp
qed

lemma strcasecmp_zero_iff:
  assumes "CHR 0x00 \<notin> set s" "CHR 0x00 \<notin> set t"
  shows "(strcasecmp s t = 0) = (map c_tolower s = map c_tolower t)"
  using assms
proof (induction s t rule: strcasecmp.induct)
  case 1
  then show ?case by simp
next
  case (2 b bs)
  then have "b \<noteq> CHR 0x00" by auto
  from tolower_not_nul[OF this] show ?case by simp
next
  case (3 a az)
  then have "a \<noteq> CHR 0x00" by auto
  from tolower_not_nul[OF this] show ?case by simp
next
  case (4 a az b bs)
  show ?case
  proof (cases "c_tolower a = c_tolower b")
    case True
    with 4 show ?thesis by simp
  next
    case False
    then have "(of_char (c_tolower a) :: nat) \<noteq> of_char (c_tolower b)"
      by (simp add: of_char_eq_iff)
    with False show ?thesis by simp
  qed
qed

lemma equal_ignoring_case_iff:
  "equal_ignoring_case s t = (map c_tolower s = map c_tolower t)"
  unfolding equal_ignoring_case_def
  by (induction s arbitrary: t) (auto simp: list_all2_Cons1 tolower_eq_iff Cons_eq_map_conv)

lemma lower_literals:
  "map c_tolower ''ON'' = ''on''" "map c_tolower ''START'' = ''start''"
  "map c_tolower ''MOVE'' = ''move''" "map c_tolower ''1'' = ''1''"
  "map c_tolower ''OFF'' = ''off''" "map c_tolower ''STOP'' = ''stop''"
  "map c_tolower ''HALT'' = ''halt''" "map c_tolower ''0'' = ''0''"
  by code_simp+

lemma on_command_iff:
  assumes "CHR 0x00 \<notin> set m"
  shows "lora_is_on_command (Some m)
     = (map c_tolower m = ''on'' \<or> map c_tolower m = ''start''
        \<or> map c_tolower m = ''move'' \<or> map c_tolower m = ''1'')"
proof -
  have nul: "CHR 0x00 \<notin> set ''ON''" "CHR 0x00 \<notin> set ''START''"
    "CHR 0x00 \<notin> set ''MOVE''" "CHR 0x00 \<notin> set ''1''"
    by simp_all
  show ?thesis
    unfolding lora_is_on_command_def option.case
      strcasecmp_zero_iff[OF assms nul(1)] strcasecmp_zero_iff[OF assms nul(2)]
      strcasecmp_zero_iff[OF assms nul(3)] strcasecmp_zero_iff[OF assms nul(4)]
      lower_literals ..
qed

lemma off_command_iff:
  assumes "CHR 0x00 \<notin> set m"
  shows "lora_is_off_command (Some m)
     = (map c_tolower m = ''off'' \<or> map c_tolower m = ''stop''
        \<or> map c_tolower m = ''halt'' \<or> map c_tolower m = ''0'')"
proof -
  have nul: "CHR 0x00 \<notin> set ''OFF''" "CHR 0x00 \<notin> set ''STOP''"
    "CHR 0x00 \<notin> set ''HALT''" "CHR 0x00 \<notin> set ''0''"
    by simp_all
  show ?thesis
    unfolding lora_is_off_command_def option.case
      strcasecmp_zero_iff[OF assms nul(1)] strcasecmp_zero_iff[OF assms nul(2)]
      strcasecmp_zero_iff[OF assms nul(3)] strcasecmp_zero_iff[OF assms nul(4)]
      lower_literals ..
qed

text \<open>
  Claim C9. For every C string \<open>m\<close>, \<open>lora_is_on_command\<close> is true exactly when \<open>m\<close>
  equals one of ON, START, MOVE, 1 up to the case of letters, and \<open>lora_is_off_command\<close>
  exactly when it equals one of OFF, STOP, HALT, 0 up to case; no string is classified as
  both; a \<^verbatim>\<open>NULL\<close> pointer and the string PING are classified as neither.
\<close>

theorem command_classifiers:
  assumes "CHR 0x00 \<notin> set m"
  shows "lora_is_on_command (Some m)
           = (equal_ignoring_case m ''ON'' \<or> equal_ignoring_case m ''START''
              \<or> equal_ignoring_case m ''MOVE'' \<or> equal_ignoring_case m ''1'')
       \<and> lora_is_off_command (Some m)
           = (equal_ignoring_case m ''OFF'' \<or> equal_ignoring_case m ''STOP''
              \<or> equal_ignoring_case m ''HALT'' \<or> equal_ignoring_case m ''0'')
       \<and> \<not> (lora_is_on_command (Some m) \<and> lora_is_off_command (Some m))
       \<and> \<not> lora_is_on_command None \<and> \<not> lora_is_off_command None
       \<and> \<not> lora_is_on_command (Some ''PING'') \<and> \<not> lora_is_off_command (Some ''PING'')"
proof -
  have on: "lora_is_on_command (Some m)
           = (equal_ignoring_case m ''ON'' \<or> equal_ignoring_case m ''START''
              \<or> equal_ignoring_case m ''MOVE'' \<or> equal_ignoring_case m ''1'')"
    unfolding on_command_iff[OF assms] equal_ignoring_case_iff lower_literals ..
  have off: "lora_is_off_command (Some m)
           = (equal_ignoring_case m ''OFF'' \<or> equal_ignoring_case m ''STOP''
              \<or> equal_ignoring_case m ''HALT'' \<or> equal_ignoring_case m ''0'')"
    unfolding off_command_iff[OF assms] equal_ignoring_case_iff lower_literals ..
  have excl: "\<not> (lora_is_on_command (Some m) \<and> lora_is_off_command (Some m))"
    unfolding on_command_iff[OF assms] off_command_iff[OF assms] by auto
  have nul: "\<not> lora_is_on_command None" "\<not> lora_is_off_command None"
    by (simp_all add: lora_is_on_command_def lora_is_off_command_def)
  have ping: "\<not> lora_is_on_command (Some ''PING'')" "\<not> lora_is_off_command (Some ''PING'')"
    by (simp_all add: lora_is_on_command_def lora_is_off_command_def c_tolower_def c_isupper_def)
  from on off excl nul ping show ?thesis by blast
qed

theorem command_classifiers_witness:
  "CHR 0x00 \<notin> set ''Start''
   \<and> lora_is_on_command (Some ''Start'') \<and> equal_ignoring_case ''Start'' ''START''
   \<and> \<not> lora_is_off_command (Some ''Start'')"
proof -
  have h: "CHR 0x00 \<notin> set ''Start''" by simp
  have e: "equal_ignoring_case ''Start'' ''START''"
    by (simp add: equal_ignoring_case_def same_letter_def c_isupper_def)
  from command_classifiers[OF h] h e show ?thesis by blast
qed

text \<open>
  Claim C8. \<open>is_response_ok\<close> is false whenever the text contains an error marker
  (\<open>+ERR\<close> or \<open>ERROR\<close>), whatever else it contains; without an error marker it is true
  exactly when the text contains a success marker (\<open>OK\<close> or \<open>+OK\<close>). It is false on a
  \<^verbatim>\<open>NULL\<close> pointer and on \<open>+OK but +ERR\<close>.
\<close>

theorem response_classification:
  "is_response_ok (Some r)
     = (\<not> (sublist ''+ERR'' r \<or> sublist ''ERROR'' r) \<and> (sublist ''OK'' r \<or> sublist ''+OK'' r))
   \<and> \<not> is_response_ok None
   \<and> \<not> is_response_ok (Some ''+OK but +ERR'')"
  using is_response_ok_iff[of r] ok_err_example by (simp add: is_response_ok_def)

theorem response_classification_witness:
  "sublist ''+ERR'' ''+OK but +ERR'' \<and> sublist ''+OK'' ''+OK but +ERR''
   \<and> \<not> is_response_ok (Some ''+OK but +ERR'')"
proof -
  have e: "sublist ''+ERR'' ''+OK but +ERR''" "sublist ''+OK'' ''+OK but +ERR''"
    unfolding strstr_sublist[symmetric] by simp_all
  from response_classification[of "''+OK but +ERR''"] e show ?thesis by simp
qed

section \<open>Parsing a received message\<close>

lemma digit_not_space: "c_isdigit c \<Longrightarrow> \<not> c_isspace c"
  by (auto simp: c_isdigit_def c_isspace_def)

lemma digit_not_sign: "c_isdigit c \<Longrightarrow> c \<noteq> CHR ''-'' \<and> c \<noteq> CHR ''+''"
  by (auto simp: c_isdigit_def)

lemma comma_not_digit: "\<not> c_isdigit (CHR '','')"
  by (simp add: c_isdigit_def)

lemma takeWhile_digits:
  assumes "list_all c_isdigit ds" "rest = [] \<or> \<not> c_isdigit (hd rest)"
  shows "takeWhile c_isdigit (ds @ rest) = ds \<and> dropWhile c_isdigit (ds @ rest) = rest"
proof -
  have r: "takeWhile c_isdigit rest = [] \<and> dropWhile c_isdigit rest = rest"
    using assms(2) by (cases rest) auto
  from assms(1) r show ?thesis by (induction ds) auto
qed

lemma strtoul_digits:
  assumes "ds \<noteq> []" "list_all c_isdigit ds" "rest = [] \<or> \<not> c_isdigit (hd rest)"
  shows "strtoul (ds @ rest) = (min (decimal_value ds) ULONG_MAX, rest)"
proof -
  obtain d ds' where ds: "ds = d # ds'" using assms(1) by (cases ds) auto
  then have d: "c_isdigit d" using assms(2) by simp
  have sp: "dropWhile c_isspace (ds @ rest) = ds @ rest"
    using ds digit_not_space[OF d] by simp
  have hdd: "hd (ds @ rest) = d" "ds @ rest \<noteq> []" using ds by simp_all
  from takeWhile_digits[OF assms(2,3)]
  have tw: "takeWhile c_isdigit (ds @ rest) = ds" "dropWhile c_isdigit (ds @ rest) = rest"
    by simp_all
  show ?thesis
    unfolding strtoul_def sp Let_def hdd
    using digit_not_sign[OF d] tw assms(1)
    by (simp add: min_def)
qed

lemma strtoul_no_number:
  assumes "s = [] \<or> (\<not> c_isspace (hd s) \<and> \<not> c_isdigit (hd s) \<and> hd s \<noteq> CHR ''-'' \<and> hd s \<noteq> CHR ''+'')"
  shows "strtoul s = (0, s)"
  using assms by (cases s) (auto simp: strtoul_def)

lemma strchr_found: "c \<notin> set xs \<Longrightarrow> strchr (xs @ c # rest) c = Some (c # rest)"
  by (induction xs) auto

lemma strchr_none: "c \<notin> set xs \<Longrightarrow> strchr xs c = None"
  by (induction xs) auto

lemma skip_comma_simps:
  "skip_comma (CHR '','' # xs) = xs"
  "xs = [] \<or> hd xs \<noteq> CHR '','' \<Longrightarrow> skip_comma xs = xs"
  by (auto simp: skip_comma_def)

lemma replicate_update_same: "(replicate n x)[i := x] = replicate n x"
  by (induction n arbitrary: i) (auto split: nat.splits)

lemma parse_fields_well_formed:
  assumes addr: "addr \<noteq> []" "list_all c_isdigit addr"
    and dlen: "dlen \<noteq> []" "list_all c_isdigit dlen"
    and pl: "CHR '','' \<notin> set pl" "length pl < 256"
  shows "parse_fields (''+RCV='' @ addr @ '','' @ dlen @ '','' @ pl @ '','' @ rest)
     = \<lparr>sender_address = word_of_nat (min (decimal_value addr) ULONG_MAX),
        rssi = word_of_int \<bar>fst (strtol rest)\<bar>,
        payload_length = word_of_nat (min (length pl) (LORA_MAX_MESSAGE_LENGTH - 1)),
        payload = take (LORA_MAX_MESSAGE_LENGTH - 1) pl
                  @ replicate (LORA_MAX_MESSAGE_LENGTH - min (length pl) (LORA_MAX_MESSAGE_LENGTH - 1)) (CHR 0x00)\<rparr>"
proof -
  have s1: "strtoul (addr @ '','' @ dlen @ '','' @ pl @ '','' @ rest)
      = (min (decimal_value addr) ULONG_MAX, '','' @ dlen @ '','' @ pl @ '','' @ rest)"
    using addr by (intro strtoul_digits) (simp_all add: comma_not_digit)
  have s2: "strtoul (dlen @ '','' @ pl @ '','' @ rest)
      = (min (decimal_value dlen) ULONG_MAX, '','' @ pl @ '','' @ rest)"
    using dlen by (intro strtoul_digits) (simp_all add: comma_not_digit)
  have s3: "strchr (pl @ '','' @ rest) (CHR '','') = Some ('','' @ rest)"
    using strchr_found[OF pl(1), of rest] by simp
  have u: "unat (word_of_nat (length pl) :: 8 word) = length pl"
    using pl(2) by (simp add: unat_of_nat)
  show ?thesis
  proof (cases "length pl > 239")
    case True
    then show ?thesis
      unfolding parse_fields_def
      using s1 s2 s3 u
      by (simp add: skip_comma_simps Let_def zero_message_def LORA_MAX_MESSAGE_LENGTH_def
          replicate_update_same unat_of_nat min_def nth_append list_update_append)
  next
    case False
    then show ?thesis
      unfolding parse_fields_def
      using s1 s2 s3 u
      by (simp add: skip_comma_simps Let_def zero_message_def LORA_MAX_MESSAGE_LENGTH_def
          replicate_update_same unat_of_nat min_def nth_append list_update_append)
  qed
qed

lemmas c_eval = strtoul_def strtol_def c_isspace_def c_isdigit_def decimal_value_def digit_value_def
  ULONG_MAX_def LONG_MAX_def LONG_MIN_def Let_def skip_comma_def parse_fields_def
  parse_received_message_def zero_message_def LORA_MAX_MESSAGE_LENGTH_def replicate_update_same

lemma parse_example_999:
  "parse_fields ''+RCV=42,999,abc,-17''
     = \<lparr>sender_address = 42, rssi = 17, payload_length = 3,
        payload = ''abc'' @ replicate 237 (CHR 0x00)\<rparr>"
  by (simp add: c_eval)

lemma parse_example_3:
  "parse_fields ''+RCV=42,3,abc,-17''
     = \<lparr>sender_address = 42, rssi = 17, payload_length = 3,
        payload = ''abc'' @ replicate 237 (CHR 0x00)\<rparr>"
  by (simp add: c_eval)

lemma parse_example_no_comma:
  "parse_fields ''+RCV=42,3,abc''
     = \<lparr>sender_address = 42, rssi = 0, payload_length = 3,
        payload = replicate 240 (CHR 0x00)\<rparr>"
  by (simp add: c_eval)

lemma c_str_abc: "c_str (''abc'' @ replicate 237 (CHR 0x00)) = ''abc''"
  by (simp add: c_str_def takeWhile_append1 takeWhile_append2)

lemma parse_fields_no_payload_end:
  assumes addr: "addr \<noteq> []" "list_all c_isdigit addr"
    and dlen: "dlen \<noteq> []" "list_all c_isdigit dlen"
    and pl: "CHR '','' \<notin> set pl"
  shows "parse_fields (''+RCV='' @ addr @ '','' @ dlen @ '','' @ pl)
     = zero_message\<lparr>sender_address := word_of_nat (min (decimal_value addr) ULONG_MAX),
                      payload_length := word_of_nat (min (decimal_value dlen) ULONG_MAX)\<rparr>"
proof -
  have s1: "strtoul (addr @ '','' @ dlen @ '','' @ pl)
      = (min (decimal_value addr) ULONG_MAX, '','' @ dlen @ '','' @ pl)"
    using addr by (intro strtoul_digits) (simp_all add: comma_not_digit)
  have s2: "strtoul (dlen @ '','' @ pl) = (min (decimal_value dlen) ULONG_MAX, '','' @ pl)"
    using dlen by (intro strtoul_digits) (simp_all add: comma_not_digit)
  have s3: "strchr pl (CHR '','') = None"
    using pl by (rule strchr_none)
  show ?thesis
    unfolding parse_fields_def using s1 s2 s3
    by (simp add: skip_comma_simps Let_def)
qed

lemma strncmp_zero_iff:
  assumes "CHR 0x00 \<notin> set s" "CHR 0x00 \<notin> set t"
  shows "(strncmp s t n = 0) = (take n s = take n t)"
  using assms
proof (induction s t n rule: strncmp.induct)
  case (1 s1 s2)
  then show ?case by simp
next
  case (2 n)
  then show ?case by simp
next
  case (3 b bs n)
  then have "b \<noteq> CHR 0x00" by auto
  then have "(of_char b :: nat) \<noteq> of_char (CHR 0x00)" by (simp only: of_char_eq_iff not_False_eq_True)
  then show ?case by simp
next
  case (4 a az n)
  then have "a \<noteq> CHR 0x00" by auto
  then have "(of_char a :: nat) \<noteq> of_char (CHR 0x00)" by (simp only: of_char_eq_iff not_False_eq_True)
  then show ?case by simp
next
  case (5 a az b bs n)
  show ?case
  proof (cases "a = b")
    case True
    with 5 show ?thesis by simp
  next
    case False
    then have "(of_char a :: nat) \<noteq> of_char b" by (simp only: of_char_eq_iff not_False_eq_True)
    with False show ?thesis by simp
  qed
qed

lemma c_str_no_nul: "CHR 0x00 \<notin> set (c_str xs)"
  unfolding c_str_def by (induction xs) auto

lemma has_prefix_iff: "(strncmp (c_str line) ''+RCV='' 5 = 0) = (take 5 (c_str line) = ''+RCV='')"
  using strncmp_zero_iff[OF c_str_no_nul, of "''+RCV=''" line 5] by simp

lemma line_scan_length:
  assumes "fst (line_scan max_len line cs) = Some l" "length line < max_len"
  shows "length l < max_len"
  using assms
  by (induction max_len line cs rule: line_scan.induct)
     (auto simp: line_result_def split: if_splits)

lemma received_line_fits_response_buffer:
  assumes "rb_wf ub" "uart_buffer_get_line ub RESPONSE_BUFFER_SIZE = Some (Some line, ub')"
  shows "length (c_str line) < RESPONSE_BUFFER_SIZE"
proof -
  from get_line_scan[OF assms(1), of RESPONSE_BUFFER_SIZE] assms(2)
  have "fst (line_scan RESPONSE_BUFFER_SIZE [] (rb_contents ub)) = Some line" by auto
  from line_scan_length[OF this] have "length line < RESPONSE_BUFFER_SIZE"
    by (simp add: RESPONSE_BUFFER_SIZE_def)
  moreover have "length (c_str line) \<le> length line"
    unfolding c_str_def by (rule length_takeWhile_le)
  ultimately show ?thesis by simp
qed

text \<open>
  Claim C1. For every notification line \<open>+RCV=<addr>,<declared_len>,<payload>,<rssi>\<close>
  (digits in the first two fields, a comma ending the payload) that fits the 256-byte
  response buffer it is read into, \<open>parse_received_message\<close> stores as
  \<open>payload_length\<close> the number of chars between the start of the payload and that comma,
  capped at \<open>LORA_MAX_MESSAGE_LENGTH - 1\<close>, and never the declared length; the payload
  array holds those chars followed by NULs. Both \<open>+RCV=42,999,abc,-17\<close> and
  \<open>+RCV=42,3,abc,-17\<close> give sender 42, payload \<open>abc\<close>, length 3 and rssi 17.
\<close>

theorem parse_payload_length_from_delimiters:
  assumes form: "response = ''+RCV='' @ addr @ '','' @ dlen @ '','' @ pl @ '','' @ rest"
    and addr: "addr \<noteq> []" "list_all c_isdigit addr"
    and dlen: "dlen \<noteq> []" "list_all c_isdigit dlen"
    and pl: "CHR '','' \<notin> set pl"
    and fits: "length response < RESPONSE_BUFFER_SIZE"
  shows "(\<exists>m'. parse_received_message (Some response) (Some m) = Inr (Some m')
            \<and> unat (payload_length m') = min (length pl) (LORA_MAX_MESSAGE_LENGTH - 1)
            \<and> payload m' = take (LORA_MAX_MESSAGE_LENGTH - 1) pl
                 @ replicate (LORA_MAX_MESSAGE_LENGTH - min (length pl) (LORA_MAX_MESSAGE_LENGTH - 1))
                     (CHR 0x00)
            \<and> sender_address m' = word_of_nat (min (decimal_value addr) ULONG_MAX)
            \<and> rssi m' = word_of_int \<bar>fst (strtol rest)\<bar>)
       \<and> parse_received_message (Some ''+RCV=42,999,abc,-17'') (Some m)
           = Inr (Some \<lparr>sender_address = 42, rssi = 17, payload_length = 3,
                         payload = ''abc'' @ replicate 237 (CHR 0x00)\<rparr>)
       \<and> parse_received_message (Some ''+RCV=42,3,abc,-17'') (Some m)
           = Inr (Some \<lparr>sender_address = 42, rssi = 17, payload_length = 3,
                         payload = ''abc'' @ replicate 237 (CHR 0x00)\<rparr>)
       \<and> c_str (''abc'' @ replicate 237 (CHR 0x00)) = ''abc''"
proof -
  have len: "length pl < 256"
    using fits unfolding form by (simp add: RESPONSE_BUFFER_SIZE_def)
  have five: "\<not> length response < 5" unfolding form by simp
  have un: "unat (word_of_nat (min (length pl) (LORA_MAX_MESSAGE_LENGTH - 1)) :: 8 word)
      = min (length pl) (LORA_MAX_MESSAGE_LENGTH - 1)"
    by (simp add: unat_of_nat LORA_MAX_MESSAGE_LENGTH_def min_def)
  have "parse_received_message (Some response) (Some m) = Inr (Some (parse_fields response))"
    using five by (simp add: parse_received_message_def)
  then have general: "\<exists>m'. parse_received_message (Some response) (Some m) = Inr (Some m')
            \<and> unat (payload_length m') = min (length pl) (LORA_MAX_MESSAGE_LENGTH - 1)
            \<and> payload m' = take (LORA_MAX_MESSAGE_LENGTH - 1) pl
                 @ replicate (LORA_MAX_MESSAGE_LENGTH - min (length pl) (LORA_MAX_MESSAGE_LENGTH - 1))
                     (CHR 0x00)
            \<and> sender_address m' = word_of_nat (min (decimal_value addr) ULONG_MAX)
            \<and> rssi m' = word_of_int \<bar>fst (strtol rest)\<bar>"
    unfolding form parse_fields_well_formed[OF addr dlen pl len] using un by simp
  have e1: "parse_received_message (Some ''+RCV=42,999,abc,-17'') (Some m)
           = Inr (Some \<lparr>sender_address = 42, rssi = 17, payload_length = 3,
                         payload = ''abc'' @ replicate 237 (CHR 0x00)\<rparr>)"
    by (simp add: parse_received_message_def parse_example_999)
  have e2: "parse_received_message (Some ''+RCV=42,3,abc,-17'') (Some m)
           = Inr (Some \<lparr>sender_address = 42, rssi = 17, payload_length = 3,
                         payload = ''abc'' @ replicate 237 (CHR 0x00)\<rparr>)"
    by (simp add: parse_received_message_def parse_example_3)
  from general e1 e2 c_str_abc show ?thesis by blast
qed

theorem parse_payload_length_from_delimiters_witness:
  "''+RCV=42,999,abc,-17'' = ''+RCV='' @ ''42'' @ '','' @ ''999'' @ '','' @ ''abc'' @ '','' @ ''-17''
   \<and> ''42'' \<noteq> [] \<and> list_all c_isdigit ''42'' \<and> ''999'' \<noteq> [] \<and> list_all c_isdigit ''999''
   \<and> CHR '','' \<notin> set ''abc''
   \<and> length ''+RCV=42,999,abc,-17'' < RESPONSE_BUFFER_SIZE
   \<and> parse_received_message (Some ''+RCV=42,999,abc,-17'') (Some zero_message)
       = Inr (Some \<lparr>sender_address = 42, rssi = 17, payload_length = 3,
                     payload = ''abc'' @ replicate 237 (CHR 0x00)\<rparr>)
   \<and> unat (3 :: 8 word) = min (length ''abc'') (LORA_MAX_MESSAGE_LENGTH - 1)"
proof -
  have h1: "''+RCV=42,999,abc,-17'' = ''+RCV='' @ ''42'' @ '','' @ ''999'' @ '','' @ ''abc'' @ '','' @ ''-17''"
    by simp
  have h2: "''42'' \<noteq> []" "list_all c_isdigit ''42''" by (simp_all add: c_isdigit_def)
  have h3: "''999'' \<noteq> []" "list_all c_isdigit ''999''" by (simp_all add: c_isdigit_def)
  have h4: "CHR '','' \<notin> set ''abc''" by simp
  have h5: "length ''+RCV=42,999,abc,-17'' < RESPONSE_BUFFER_SIZE"
    by (simp add: RESPONSE_BUFFER_SIZE_def)
  from parse_payload_length_from_delimiters[OF h1 h2 h3 h4 h5, of zero_message]
  show ?thesis using h2 h3 h5 by (auto simp: LORA_MAX_MESSAGE_LENGTH_def)
qed

lemma receive_line:
  assumes wf: "rb_wf ub" and init: "initialized cfg"
    and cont: "rb_contents ub = line @ t # rest" and t: "is_terminator t"
    and line: "line \<noteq> []" "\<not> list_ex is_terminator line" "CHR 0x00 \<notin> set line"
      "length line + 2 \<le> RESPONSE_BUFFER_SIZE"
  shows "\<exists>ub'. rb_wf ub' \<and> rb_contents ub' = rest
            \<and> lora_receive_message (Some cfg) (Some m) ub
                = Some (if take 5 line = ''+RCV=''
                        then Inr (LORA_STATUS_OK, Some (parse_fields line), ub')
                        else Inr (LORA_STATUS_ERROR, Some m, ub'))"
proof -
  have "line_scan RESPONSE_BUFFER_SIZE [] ([] @ line @ t # rest) = (Some line, rest)"
    using line t by (intro line_scan_complete) auto
  with get_line_scan[OF wf, of RESPONSE_BUFFER_SIZE] cont
  obtain ub' where g: "uart_buffer_get_line ub RESPONSE_BUFFER_SIZE = Some (Some line, ub')"
    and wf': "rb_wf ub'" and c': "rb_contents ub' = rest"
    by auto
  have cs: "c_str line = line" using line(3) by (rule c_str_id)
  have pre: "(strncmp line ''+RCV='' 5 = 0) = (take 5 line = ''+RCV='')"
    using has_prefix_iff[of line] cs by simp
  have "lora_receive_message (Some cfg) (Some m) ub
          = Some (if take 5 line = ''+RCV=''
                  then Inr (LORA_STATUS_OK, Some (parse_fields line), ub')
                  else Inr (LORA_STATUS_ERROR, Some m, ub'))"
  proof (cases "take 5 line = ''+RCV=''")
    case True
    then have "length (take 5 line) = 5" by simp
    then have "\<not> length line < 5" by auto
    then have "parse_received_message (Some line) (Some m) = Inr (Some (parse_fields line))"
      by (simp add: parse_received_message_def)
    with True show ?thesis
      unfolding lora_receive_message_def using init g cs pre by simp
  next
    case False
    then show ?thesis
      unfolding lora_receive_message_def using init g cs pre by simp
  qed
  with wf' c' show ?thesis by blast
qed

lemma digit_plain: "c_isdigit c \<Longrightarrow> \<not> is_terminator c \<and> c \<noteq> CHR 0x00 \<and> c \<noteq> CHR '',''"
  by (auto simp: c_isdigit_def is_terminator_def)

lemma digits_plain:
  assumes "list_all c_isdigit ds"
  shows "\<not> list_ex is_terminator ds \<and> CHR 0x00 \<notin> set ds \<and> CHR '','' \<notin> set ds"
  using assms digit_plain by (induction ds) auto

text \<open>
  Claim C7 says that a malformed notification leaves the message structure entirely
  zeroed and is treated as no message. On \<open>+RCV=42,3,abc\<close>, which lacks the comma after the
  payload, the structure keeps sender address 42 and payload length 3 (the declared
  length), and \<open>lora_receive_message\<close> reports \<open>LORA_STATUS_OK\<close>.
\<close>

theorem malformed_notification_counterexample:
  "parse_received_message (Some ''+RCV=42,3,abc'') (Some zero_message)
     = Inr (Some \<lparr>sender_address = 42, rssi = 0, payload_length = 3,
                   payload = replicate 240 (CHR 0x00)\<rparr>)
   \<and> \<lparr>sender_address = 42, rssi = 0, payload_length = 3,
       payload = replicate 240 (CHR 0x00)\<rparr> \<noteq> zero_message
   \<and> (case lora_receive_message (Some \<lparr>initialized = True\<rparr>) (Some zero_message)
              (feed (''+RCV=42,3,abc'' @ [CHR 0x0D])) of
         Some (Inr (status, m', ub')) \<Rightarrow>
           status = LORA_STATUS_OK
           \<and> m' = Some \<lparr>sender_address = 42, rssi = 0, payload_length = 3,
                         payload = replicate 240 (CHR 0x00)\<rparr>
       | _ \<Rightarrow> False)"
proof -
  have f: "rb_wf (feed (''+RCV=42,3,abc'' @ [CHR 0x0D]))"
    "rb_contents (feed (''+RCV=42,3,abc'' @ [CHR 0x0D])) = ''+RCV=42,3,abc'' @ CHR 0x0D # []"
    using feed_ok[of "''+RCV=42,3,abc'' @ [CHR 0x0D]"] by simp_all
  have i: "initialized \<lparr>initialized = True\<rparr>" by simp
  have cr: "is_terminator (CHR 0x0D)" by (simp add: is_terminator_def)
  have l: "''+RCV=42,3,abc'' \<noteq> []" "\<not> list_ex is_terminator ''+RCV=42,3,abc''"
    "CHR 0x00 \<notin> set ''+RCV=42,3,abc''" "length ''+RCV=42,3,abc'' + 2 \<le> RESPONSE_BUFFER_SIZE"
    by (simp_all add: is_terminator_def RESPONSE_BUFFER_SIZE_def)
  from receive_line[OF f(1) i f(2) cr l, of zero_message]
  have r: "case lora_receive_message (Some \<lparr>initialized = True\<rparr>) (Some zero_message)
              (feed (''+RCV=42,3,abc'' @ [CHR 0x0D])) of
         Some (Inr (status, m', ub')) \<Rightarrow>
           status = LORA_STATUS_OK
           \<and> m' = Some \<lparr>sender_address = 42, rssi = 0, payload_length = 3,
                         payload = replicate 240 (CHR 0x00)\<rparr>
       | _ \<Rightarrow> False"
    by (auto simp: parse_example_no_comma)
  have p: "parse_received_message (Some ''+RCV=42,3,abc'') (Some zero_message)
     = Inr (Some \<lparr>sender_address = 42, rssi = 0, payload_length = 3,
                   payload = replicate 240 (CHR 0x00)\<rparr>)"
    by (simp add: parse_received_message_def parse_example_no_comma)
  have n: "\<lparr>sender_address = 42, rssi = 0, payload_length = 3,
       payload = replicate 240 (CHR 0x00)\<rparr> \<noteq> zero_message"
    by (simp add: zero_message_def)
  from p n r show ?thesis by blast
qed

text \<open>
  Claim C7, amended. For a line \<open>+RCV=<addr>,<declared_len>,<payload>\<close> with no comma
  after the payload, parsing leaves the payload array zeroed and rssi 0 and stores the
  parsed address in \<open>sender_address\<close> and the declared length in \<open>payload_length\<close>
  (truncated to 16 and 8 bits), and \<open>lora_receive_message\<close> returns
  \<open>LORA_STATUS_OK\<close> with that structure. A line without the \<open>+RCV=\<close> prefix is not
  parsed: \<open>lora_receive_message\<close> returns \<open>LORA_STATUS_ERROR\<close> and leaves the
  destination as it was.
\<close>

theorem malformed_notification_partial_parse:
  assumes addr: "addr \<noteq> []" "list_all c_isdigit addr"
    and dlen: "dlen \<noteq> []" "list_all c_isdigit dlen"
    and pl: "CHR '','' \<notin> set pl" "\<not> list_ex is_terminator pl" "CHR 0x00 \<notin> set pl"
    and init: "initialized cfg"
    and ub1: "rb_wf ub1"
      "rb_contents ub1 = (''+RCV='' @ addr @ '','' @ dlen @ '','' @ pl) @ CHR 0x0D # rest1"
      "length (''+RCV='' @ addr @ '','' @ dlen @ '','' @ pl) + 2 \<le> RESPONSE_BUFFER_SIZE"
    and ub2: "rb_wf ub2" "rb_contents ub2 = line2 @ CHR 0x0D # rest2"
      "line2 \<noteq> []" "\<not> list_ex is_terminator line2" "CHR 0x00 \<notin> set line2"
      "length line2 + 2 \<le> RESPONSE_BUFFER_SIZE" "take 5 line2 \<noteq> ''+RCV=''"
  shows "parse_received_message (Some (''+RCV='' @ addr @ '','' @ dlen @ '','' @ pl)) (Some m)
           = Inr (Some (zero_message
                 \<lparr>sender_address := word_of_nat (min (decimal_value addr) ULONG_MAX),
                  payload_length := word_of_nat (min (decimal_value dlen) ULONG_MAX)\<rparr>))
       \<and> (\<exists>ub'. lora_receive_message (Some cfg) (Some m) ub1
             = Some (Inr (LORA_STATUS_OK,
                 Some (zero_message
                   \<lparr>sender_address := word_of_nat (min (decimal_value addr) ULONG_MAX),
                    payload_length := word_of_nat (min (decimal_value dlen) ULONG_MAX)\<rparr>),
                 ub')))
       \<and> (\<exists>ub'. lora_receive_message (Some cfg) (Some m) ub2
             = Some (Inr (LORA_STATUS_ERROR, Some m, ub')))"
proof -
  let ?line = "''+RCV='' @ addr @ '','' @ dlen @ '','' @ pl"
  let ?zm = "zero_message
                 \<lparr>sender_address := word_of_nat (min (decimal_value addr) ULONG_MAX),
                  payload_length := word_of_nat (min (decimal_value dlen) ULONG_MAX)\<rparr>"
  have pf: "parse_fields ?line = ?zm"
    using addr dlen pl(1) by (rule parse_fields_no_payload_end)
  have "\<not> length ?line < 5" by simp
  then have p1: "parse_received_message (Some ?line) (Some m) = Inr (Some ?zm)"
    unfolding parse_received_message_def pf[symmetric] by simp
  have plain: "?line \<noteq> []" "\<not> list_ex is_terminator ?line" "CHR 0x00 \<notin> set ?line"
    using digits_plain[OF addr(2)] digits_plain[OF dlen(2)] pl
    by (auto simp: is_terminator_def)
  have cr: "is_terminator (CHR 0x0D)" by (simp add: is_terminator_def)
  have pre: "take 5 ?line = ''+RCV=''" by simp
  from receive_line[OF ub1(1) init ub1(2) cr plain ub1(3), of m]
  have p2: "\<exists>ub'. lora_receive_message (Some cfg) (Some m) ub1
             = Some (Inr (LORA_STATUS_OK, Some ?zm, ub'))"
    unfolding pf using pre by auto
  from receive_line[OF ub2(1) init ub2(2) cr ub2(3,4,5,6), of m] ub2(7)
  have p3: "\<exists>ub'. lora_receive_message (Some cfg) (Some m) ub2
             = Some (Inr (LORA_STATUS_ERROR, Some m, ub'))"
    by auto
  from p1 p2 p3 show ?thesis by blast
qed

theorem malformed_notification_partial_parse_witness:
  "''42'' \<noteq> [] \<and> list_all c_isdigit ''42'' \<and> ''3'' \<noteq> [] \<and> list_all c_isdigit ''3''
   \<and> CHR '','' \<notin> set ''abc'' \<and> \<not> list_ex is_terminator ''abc'' \<and> CHR 0x00 \<notin> set ''abc''
   \<and> initialized \<lparr>initialized = True\<rparr>
   \<and> rb_wf (feed (''+RCV=42,3,abc'' @ [CHR 0x0D]))
   \<and> rb_contents (feed (''+RCV=42,3,abc'' @ [CHR 0x0D]))
       = (''+RCV='' @ ''42'' @ '','' @ ''3'' @ '','' @ ''abc'') @ CHR 0x0D # []
   \<and> length (''+RCV='' @ ''42'' @ '','' @ ''3'' @ '','' @ ''abc'') + 2 \<le> RESPONSE_BUFFER_SIZE
   \<and> rb_wf (feed (''+OK'' @ [CHR 0x0D]))
   \<and> rb_contents (feed (''+OK'' @ [CHR 0x0D])) = ''+OK'' @ CHR 0x0D # []
   \<and> ''+OK'' \<noteq> [] \<and> \<not> list_ex is_terminator ''+OK'' \<and> CHR 0x00 \<notin> set ''+OK''
   \<and> length ''+OK'' + 2 \<le> RESPONSE_BUFFER_SIZE \<and> take 5 ''+OK'' \<noteq> ''+RCV=''
   \<and> parse_received_message (Some (''+RCV='' @ ''42'' @ '','' @ ''3'' @ '','' @ ''abc''))
         (Some zero_message)
       = Inr (Some (zero_message
             \<lparr>sender_address := word_of_nat (min (decimal_value ''42'') ULONG_MAX),
              payload_length := word_of_nat (min (decimal_value ''3'') ULONG_MAX)\<rparr>))
   \<and> (\<exists>ub'. lora_receive_message (Some \<lparr>initialized = True\<rparr>) (Some zero_message)
               (feed (''+OK'' @ [CHR 0x0D]))
             = Some (Inr (LORA_STATUS_ERROR, Some zero_message, ub')))"
proof -
  have a: "''42'' \<noteq> []" "list_all c_isdigit ''42''" by (simp_all add: c_isdigit_def)
  have d: "''3'' \<noteq> []" "list_all c_isdigit ''3''" by (simp_all add: c_isdigit_def)
  have p: "CHR '','' \<notin> set ''abc''" "\<not> list_ex is_terminator ''abc''" "CHR 0x00 \<notin> set ''abc''"
    by (simp_all add: is_terminator_def)
  have i: "initialized \<lparr>initialized = True\<rparr>" by simp
  have u1: "rb_wf (feed (''+RCV=42,3,abc'' @ [CHR 0x0D]))"
    "rb_contents (feed (''+RCV=42,3,abc'' @ [CHR 0x0D]))
       = (''+RCV='' @ ''42'' @ '','' @ ''3'' @ '','' @ ''abc'') @ CHR 0x0D # []"
    "length (''+RCV='' @ ''42'' @ '','' @ ''3'' @ '','' @ ''abc'') + 2 \<le> RESPONSE_BUFFER_SIZE"
    using feed_ok[of "''+RCV=42,3,abc'' @ [CHR 0x0D]"] by (simp_all add: RESPONSE_BUFFER_SIZE_def)
  have u2: "rb_wf (feed (''+OK'' @ [CHR 0x0D]))"
    "rb_contents (feed (''+OK'' @ [CHR 0x0D])) = ''+OK'' @ CHR 0x0D # []"
    "''+OK'' \<noteq> []" "\<not> list_ex is_terminator ''+OK''" "CHR 0x00 \<notin> set ''+OK''"
    "length ''+OK'' + 2 \<le> RESPONSE_BUFFER_SIZE" "take 5 ''+OK'' \<noteq> ''+RCV=''"
    using feed_ok[of "''+OK'' @ [CHR 0x0D]"] by (simp_all add: RESPONSE_BUFFER_SIZE_def is_terminator_def)
  from malformed_notification_partial_parse[OF a d p i u1 u2, where m = zero_message]
  show ?thesis using a d p i u1 u2 by blast
qed

section \<open>Stepper driver: emergency stop\<close>

declare interruptible_delay.simps [simp del]
declare bit_length.simps [simp del]

lemma gpio_put_simps:
  "gpio_level (gpio_put pin v h) = (gpio_level h)(pin := v)"
  "events (gpio_put pin v h) = events h @ [GpioPut pin v]"
  "flag_reads (gpio_put pin v h) = flag_reads h"
  by (simp_all add: gpio_put_def)

lemma stop_motors_result:
  "\<exists>h'. stop_motors h ms = (h', map (\<lambda>m. m\<lparr>enabled := False\<rparr>) ms)
     \<and> flag_reads h' = flag_reads h
     \<and> events h' = events h
          @ concat (map (\<lambda>m. [GpioPut (pin1 m) False, GpioPut (pin2 m) False,
                                GpioPut (pin3 m) False, GpioPut (pin4 m) False]) ms)
     \<and> (\<forall>p. \<not> gpio_level h p \<longrightarrow> \<not> gpio_level h' p)
     \<and> list_all (\<lambda>m. \<not> gpio_level h' (pin1 m) \<and> \<not> gpio_level h' (pin2 m)
                      \<and> \<not> gpio_level h' (pin3 m) \<and> \<not> gpio_level h' (pin4 m)) ms"
proof (induction ms arbitrary: h)
  case Nil
  show ?case by simp
next
  case (Cons m ms)
  let ?h1 = "gpio_put (pin4 m) False (gpio_put (pin3 m) False
                (gpio_put (pin2 m) False (gpio_put (pin1 m) False h)))"
  from Cons.IH[of ?h1] obtain h' where
    s: "stop_motors ?h1 ms = (h', map (\<lambda>m. m\<lparr>enabled := False\<rparr>) ms)"
    and f: "flag_reads h' = flag_reads ?h1"
    and e: "events h' = events ?h1
          @ concat (map (\<lambda>m. [GpioPut (pin1 m) False, GpioPut (pin2 m) False,
                                GpioPut (pin3 m) False, GpioPut (pin4 m) False]) ms)"
    and mono: "\<forall>p. \<not> gpio_level ?h1 p \<longrightarrow> \<not> gpio_level h' p"
    and off: "list_all (\<lambda>m. \<not> gpio_level h' (pin1 m) \<and> \<not> gpio_level h' (pin2 m)
                      \<and> \<not> gpio_level h' (pin3 m) \<and> \<not> gpio_level h' (pin4 m)) ms"
    by blast
  have l1: "\<not> gpio_level ?h1 (pin1 m)" "\<not> gpio_level ?h1 (pin2 m)"
    "\<not> gpio_level ?h1 (pin3 m)" "\<not> gpio_level ?h1 (pin4 m)"
    by (simp_all add: gpio_put_simps)
  have m1: "\<not> gpio_level h p \<Longrightarrow> \<not> gpio_level ?h1 p" for p
    by (simp add: gpio_put_simps)
  have "stop_motors h (m # ms) = (h', map (\<lambda>m. m\<lparr>enabled := False\<rparr>) (m # ms))"
    using s by simp
  moreover have "flag_reads h' = flag_reads h" using f by (simp add: gpio_put_simps)
  moreover have "events h' = events h
          @ concat (map (\<lambda>m. [GpioPut (pin1 m) False, GpioPut (pin2 m) False,
                                GpioPut (pin3 m) False, GpioPut (pin4 m) False]) (m # ms))"
    using e by (simp add: gpio_put_simps)
  moreover have "\<forall>p. \<not> gpio_level h p \<longrightarrow> \<not> gpio_level h' p"
    using mono m1 by blast
  moreover have "list_all (\<lambda>m. \<not> gpio_level h' (pin1 m) \<and> \<not> gpio_level h' (pin2 m)
                      \<and> \<not> gpio_level h' (pin3 m) \<and> \<not> gpio_level h' (pin4 m)) (m # ms)"
    using off mono l1 by simp
  ultimately show ?case by blast
qed

text \<open>
  Claim C3. For every array of motors, whatever the state of each motor and of the
  hardware, \<open>stepper_emergency_stop_all\<close> leaves all four outputs of every motor low and
  every motor disabled (no other field changes). The only SDK calls it makes are the four
  \<open>gpio_put(pin, 0)\<close> per motor, in order: it never sleeps, and it never reads the
  cancellation flag. On a \<^verbatim>\<open>NULL\<close> array it does nothing.
\<close>

theorem emergency_stop_all_outputs_off:
  "(\<exists>h'. stepper_emergency_stop_all h (Some ms) = (h', Some (map (\<lambda>m. m\<lparr>enabled := False\<rparr>) ms))
      \<and> list_all (\<lambda>m. \<not> gpio_level h' (pin1 m) \<and> \<not> gpio_level h' (pin2 m)
                      \<and> \<not> gpio_level h' (pin3 m) \<and> \<not> gpio_level h' (pin4 m)) ms
      \<and> events h' = events h
          @ concat (map (\<lambda>m. [GpioPut (pin1 m) False, GpioPut (pin2 m) False,
                                GpioPut (pin3 m) False, GpioPut (pin4 m) False]) ms)
      \<and> flag_reads h' = flag_reads h)
   \<and> list_all (\<lambda>m. \<not> enabled m) (map (\<lambda>m. m\<lparr>enabled := False\<rparr>) ms)
   \<and> stepper_emergency_stop_all h None = (h, None)"
proof -
  from stop_motors_result[of h ms] obtain h' where
    "stop_motors h ms = (h', map (\<lambda>m. m\<lparr>enabled := False\<rparr>) ms)"
    "flag_reads h' = flag_reads h"
    "events h' = events h
          @ concat (map (\<lambda>m. [GpioPut (pin1 m) False, GpioPut (pin2 m) False,
                                GpioPut (pin3 m) False, GpioPut (pin4 m) False]) ms)"
    "list_all (\<lambda>m. \<not> gpio_level h' (pin1 m) \<and> \<not> gpio_level h' (pin2 m)
                      \<and> \<not> gpio_level h' (pin3 m) \<and> \<not> gpio_level h' (pin4 m)) ms"
    by blast
  then have "\<exists>h'. stepper_emergency_stop_all h (Some ms) = (h', Some (map (\<lambda>m. m\<lparr>enabled := False\<rparr>) ms))
      \<and> list_all (\<lambda>m. \<not> gpio_level h' (pin1 m) \<and> \<not> gpio_level h' (pin2 m)
                      \<and> \<not> gpio_level h' (pin3 m) \<and> \<not> gpio_level h' (pin4 m)) ms
      \<and> events h' = events h
          @ concat (map (\<lambda>m. [GpioPut (pin1 m) False, GpioPut (pin2 m) False,
                                GpioPut (pin3 m) False, GpioPut (pin4 m) False]) ms)
      \<and> flag_reads h' = flag_reads h"
    by (auto simp: stepper_emergency_stop_all_def)
  moreover have "list_all (\<lambda>m. \<not> enabled m) (map (\<lambda>m. m\<lparr>enabled := False\<rparr>) ms)"
    by (simp add: list_all_iff)
  moreover have "stepper_emergency_stop_all h None = (h, None)"
    by (simp add: stepper_emergency_stop_all_def)
  ultimately show ?thesis by blast
qed

theorem emergency_stop_all_outputs_off_witness:
  "\<exists>h'. stepper_emergency_stop_all hw_all_high (Some [run_motor1])
            = (h', Some [run_motor1\<lparr>enabled := False\<rparr>])
        \<and> \<not> gpio_level h' 2 \<and> \<not> gpio_level h' 3 \<and> \<not> gpio_level h' 6 \<and> \<not> gpio_level h' 7
        \<and> events h' = [GpioPut 2 False, GpioPut 3 False, GpioPut 6 False, GpioPut 7 False]
        \<and> flag_reads h' = 0"
  using emergency_stop_all_outputs_off[of hw_all_high "[run_motor1]"]
  by (auto simp: run_motor1_def hw_all_high_def)

section \<open>Stepper driver: the cancellable delay and the rotate loop\<close>

lemma sleep_ms_simps:
  "gpio_level (sleep_ms n h) = gpio_level h"
  "flag_reads (sleep_ms n h) = flag_reads h"
  by (simp_all add: sleep_ms_def)

lemma read_flag_simps:
  "fst (read_flag flag h) = flag (flag_reads h)"
  "gpio_level (snd (read_flag flag h)) = gpio_level h"
  "events (snd (read_flag flag h)) = events h"
  "flag_reads (snd (read_flag flag h)) = Suc (flag_reads h)"
  by (simp_all add: read_flag_def)

lemma delay_zero: "interruptible_delay flag 0 h = h"
  by (simp add: interruptible_delay.simps)

lemma delay_Suc:
  "interruptible_delay flag (Suc r) h =
     (if flag (flag_reads h) then snd (read_flag flag h)
      else interruptible_delay flag r (sleep_ms 1 (snd (read_flag flag h))))"
proof (cases r)
  case 0
  then show ?thesis
    by (subst interruptible_delay.simps) (simp add: read_flag_def delay_zero)
next
  case (Suc r')
  then show ?thesis
    by (subst interruptible_delay.simps) (simp add: read_flag_def)
qed

lemma first_motor_delay_eq:
  "first_motor_delay flag ms h = interruptible_delay flag (first_delay_ms ms) h"
  by (induction flag ms h rule: first_motor_delay.induct) (simp_all add: delay_zero)


lemma c_rem_8: "0 \<le> a \<Longrightarrow> c_rem a 8 = a mod 8"
proof -
  assume a: "0 \<le> a"
  show ?thesis
  proof (cases "a = 0")
    case True
    then show ?thesis by (simp add: c_rem_def)
  next
    case False
    with a have "sgn a = 1" "\<bar>a\<bar> = a" by simp_all
    then have "c_rem a 8 = a - 8 * (a div 8)" by (simp add: c_rem_def)
    then show ?thesis by (simp add: minus_mult_div_eq_mod)
  qed
qed

lemma next_step_in_range:
  assumes "0 \<le> cur" "cur \<le> 7"
  shows "next_step STEPPER_CW cur = (cur + 1) mod 8"
    and "next_step STEPPER_CCW cur = (cur - 1 + 8) mod 8"
    and "0 \<le> next_step direction cur" and "next_step direction cur \<le> 7"
proof -
  show cw: "next_step STEPPER_CW cur = (cur + 1) mod 8"
    using assms by (simp add: next_step_def c_rem_8)
  show ccw: "next_step STEPPER_CCW cur = (cur - 1 + 8) mod 8"
    using assms by (simp add: next_step_def c_rem_8)
  have "next_step direction cur = (cur + 1) mod 8 \<or> next_step direction cur = (cur - 1 + 8) mod 8"
    using cw ccw by (cases direction) simp_all
  then show "0 \<le> next_step direction cur" "next_step direction cur \<le> 7"
    by auto
qed

lemma apply_step_in_range:
  assumes "0 \<le> s" "s \<le> 7"
  shows "\<exists>h'. stepper_apply_step h m s = Some (h', if enabled m then m\<lparr>current_step := s\<rparr> else m)
           \<and> flag_reads h' = flag_reads h"
  using assms by (simp add: stepper_apply_step_def step_pattern_def gpio_put_simps)

lemma advanced_by_one:
  assumes "step_in_range m"
  shows "advanced_by direction (Suc 0) (Some m)
      = Some (if enabled m then m\<lparr>current_step := next_step direction (current_step m)\<rparr> else m)"
proof -
  from assms have r: "0 \<le> current_step m" "current_step m \<le> 7" by (simp_all add: step_in_range_def)
  have e: "(current_step m - 1 + 8) mod 8 = (current_step m - 1) mod 8" by (rule mod_add_self2)
  have cw: "next_step STEPPER_CW (current_step m) = (current_step m + int (Suc 0)) mod 8"
    using next_step_in_range(1)[OF r] by simp
  have ccw: "next_step STEPPER_CCW (current_step m) = (current_step m - int (Suc 0)) mod 8"
    using next_step_in_range(2)[OF r] e by simp
  show ?thesis
  proof (cases direction)
    case STEPPER_CW
    then show ?thesis unfolding advanced_by_def option.case cw[symmetric] by simp
  next
    case STEPPER_CCW
    then show ?thesis unfolding advanced_by_def option.case ccw[symmetric] by simp
  qed
qed

lemma advance_motors_ok:
  assumes "motors_in_range ms"
  shows "\<exists>h'. advance_motors h direction ms = Some (h', map (advanced_by direction (Suc 0)) ms)
           \<and> flag_reads h' = flag_reads h"
  using assms
proof (induction ms arbitrary: h)
  case Nil
  then show ?case by simp
next
  case (Cons mo ms)
  then have rest: "motors_in_range ms" by (simp add: motors_in_range_def)
  show ?case
  proof (cases mo)
    case None
    from Cons.IH[OF rest, of h] None show ?thesis by (auto simp: advanced_by_def)
  next
    case (Some m)
    with Cons.prems have r: "step_in_range m" by (simp add: motors_in_range_def)
    then have cr: "0 \<le> current_step m" "current_step m \<le> 7" by (simp_all add: step_in_range_def)
    show ?thesis
    proof (cases "enabled m")
      case True
      let ?s = "next_step direction (current_step m)"
      from apply_step_in_range[OF next_step_in_range(3)[OF cr, of direction]
          next_step_in_range(4)[OF cr, of direction], of h "m\<lparr>current_step := ?s\<rparr>"]
      obtain h1 where a: "stepper_apply_step h (m\<lparr>current_step := ?s\<rparr>) ?s
            = Some (h1, m\<lparr>current_step := ?s\<rparr>)" and f1: "flag_reads h1 = flag_reads h"
        using True by auto
      from Cons.IH[OF rest, of h1] obtain h' where
        b: "advance_motors h1 direction ms = Some (h', map (advanced_by direction (Suc 0)) ms)"
        and f2: "flag_reads h' = flag_reads h1" by blast
      from a b f1 f2 True Some advanced_by_one[OF r, of direction]
      show ?thesis by (simp add: Let_def)
    next
      case False
      from Cons.IH[OF rest, of h] False Some advanced_by_one[OF r, of direction]
      show ?thesis by auto
    qed
  qed
qed

lemma advanced_by_in_range:
  "motors_in_range ms \<Longrightarrow> motors_in_range (map (advanced_by direction n) ms)"
  by (induction ms)
     (auto simp: motors_in_range_def advanced_by_def step_in_range_def split: option.splits)

lemma advanced_by_Suc:
  "advanced_by direction n (advanced_by direction (Suc 0) mo) = advanced_by direction (Suc n) mo"
proof (cases mo)
  case None
  then show ?thesis by (simp add: advanced_by_def)
next
  case (Some m)
  have cw: "((current_step m + 1) mod 8 + int n) mod 8 = (current_step m + (1 + int n)) mod 8"
    by (simp add: mod_simps algebra_simps)
  have ccw: "((current_step m - 1) mod 8 - int n) mod 8 = (current_step m - (1 + int n)) mod 8"
    by (simp add: mod_simps algebra_simps)
  from Some cw ccw show ?thesis by (simp add: advanced_by_def)
qed

lemma advanced_by_zero:
  assumes "motors_in_range ms"
  shows "map (advanced_by direction 0) ms = ms"
proof -
  have "advanced_by direction 0 mo = mo" if "mo \<in> set ms" for mo
  proof (cases mo)
    case None
    then show ?thesis by (simp add: advanced_by_def)
  next
    case (Some m)
    with that assms have "step_in_range m" by (auto simp: motors_in_range_def list_all_iff)
    then have "current_step m mod 8 = current_step m" by (simp add: step_in_range_def)
    with Some show ?thesis by (simp add: advanced_by_def)
  qed
  then show ?thesis by (simp add: map_idI)
qed

lemma rotate_loop_in_range:
  assumes "motors_in_range ms"
  shows "\<exists>h' ms'. rotate_loop flag direction n h ms = Some (h', ms') \<and> motors_in_range ms'"
  using assms
proof (induction n arbitrary: h ms)
  case 0
  then show ?case by simp
next
  case (Suc n)
  from advance_motors_ok[OF Suc.prems, of "snd (read_flag flag h)" direction]
  obtain h2 where a: "advance_motors (snd (read_flag flag h)) direction ms
        = Some (h2, map (advanced_by direction (Suc 0)) ms)" by blast
  let ?ms1 = "map (advanced_by direction (Suc 0)) ms"
  let ?h3 = "snd (read_flag flag (first_motor_delay flag ?ms1 h2))"
  from Suc.IH[OF advanced_by_in_range[OF Suc.prems], of ?h3] obtain h' ms' where
    b: "rotate_loop flag direction n ?h3 ?ms1 = Some (h', ms')" "motors_in_range ms'"
    by blast
  show ?case
    using a b Suc.prems advanced_by_in_range[OF Suc.prems, of direction "Suc 0"]
    by (auto simp: read_flag_def)
qed

lemma rotate_loop_whole_passes:
  assumes "motors_in_range ms"
  shows "\<exists>h' i. i \<le> n
           \<and> rotate_loop flag direction n h ms = Some (h', map (advanced_by direction i) ms)"
  using assms
proof (induction n arbitrary: h ms)
  case 0
  then show ?case by (simp add: advanced_by_zero)
next
  case (Suc n)
  show ?case
  proof (cases "flag (flag_reads h)")
    case True
    have "rotate_loop flag direction (Suc n) h ms
            = Some (snd (read_flag flag h), map (advanced_by direction 0) ms)"
      using True Suc.prems by (simp add: read_flag_def advanced_by_zero)
    then show ?thesis by blast
  next
    case False
    from advance_motors_ok[OF Suc.prems, of "snd (read_flag flag h)" direction]
    obtain h2 where a: "advance_motors (snd (read_flag flag h)) direction ms
          = Some (h2, map (advanced_by direction (Suc 0)) ms)" by blast
    let ?ms1 = "map (advanced_by direction (Suc 0)) ms"
    let ?hd = "first_motor_delay flag ?ms1 h2"
    show ?thesis
    proof (cases "flag (flag_reads ?hd)")
      case True
      have "rotate_loop flag direction (Suc n) h ms = Some (snd (read_flag flag ?hd), ?ms1)"
        using False a True by (simp add: read_flag_def)
      moreover have "Suc 0 \<le> Suc n" by simp
      ultimately show ?thesis by blast
    next
      case nf: False
      from Suc.IH[OF advanced_by_in_range[OF Suc.prems], of "snd (read_flag flag ?hd)"]
      obtain h' i where i: "i \<le> n"
        and b: "rotate_loop flag direction n (snd (read_flag flag ?hd)) ?ms1
              = Some (h', map (advanced_by direction i) ?ms1)"
        by blast
      have "rotate_loop flag direction (Suc n) h ms
              = Some (h', map (advanced_by direction (Suc i)) ms)"
        using False a nf b by (simp add: read_flag_def advanced_by_Suc comp_def)
      moreover have "Suc i \<le> Suc n" using i by simp
      ultimately show ?thesis by blast
    qed
  qed
qed

lemma move_loop_in_range:
  assumes "step_in_range m" "enabled m"
  shows "\<exists>h' m'. move_loop flag direction n h m = Some (h', m') \<and> step_in_range m'"
  using assms
proof (induction n arbitrary: h m)
  case 0
  then show ?case by simp
next
  case (Suc n)
  from Suc.prems have cr: "0 \<le> current_step m" "current_step m \<le> 7"
    by (simp_all add: step_in_range_def)
  let ?s = "next_step direction (current_step m)"
  let ?m1 = "m\<lparr>current_step := ?s\<rparr>"
  let ?h1 = "snd (read_flag flag h)"
  from apply_step_in_range[OF next_step_in_range(3)[OF cr, of direction]
      next_step_in_range(4)[OF cr, of direction], of ?h1 ?m1]
  obtain h2 where a: "stepper_apply_step ?h1 ?m1 ?s = Some (h2, ?m1)"
    using Suc.prems(2) by auto
  have r1: "step_in_range ?m1" "enabled ?m1"
    using next_step_in_range(3,4)[OF cr, of direction] Suc.prems(2)
    by (simp_all add: step_in_range_def)
  let ?h3 = "snd (read_flag flag (interruptible_delay flag (step_delay ?m1) h2))"
  from Suc.IH[OF r1, of ?h3] obtain h' m' where
    b: "move_loop flag direction n ?h3 ?m1 = Some (h', m')" "step_in_range m'" by blast
  show ?case
    using a b r1 Suc.prems(1) by (auto simp: read_flag_def Let_def)
qed

section \<open>Stepper driver: the phase index stays in the table\<close>

lemma init_result:
  "stepper_init h (Some m0) p1 p2 p3 p4 delay = Some (ok, h', Some m) \<Longrightarrow>
   m = \<lparr>pin1 = p1, pin2 = p2, pin3 = p3, pin4 = p4, step_delay = delay,
        current_step = 0, enabled = True\<rparr>"
  by (auto simp: stepper_init_def stepper_apply_step_def step_pattern_def Let_def
      split: option.splits if_splits)

lemma move_steps_in_range:
  assumes "step_in_range m" "stepper_move_steps flag h (Some m) steps direction = Some (h', Some m')"
  shows "step_in_range m'"
proof (cases "enabled m")
  case True
  from move_loop_in_range[OF assms(1) True, of flag direction steps h] assms(2) True
  show ?thesis by (auto simp: stepper_move_steps_def)
next
  case False
  with assms show ?thesis by (simp add: stepper_move_steps_def)
qed

lemma rotate_degrees_in_range:
  assumes "step_in_range m"
    "stepper_rotate_degrees flag spr h (Some m) degrees direction = Some (h', Some m')"
  shows "step_in_range m'"
proof (cases "enabled m")
  case True
  with assms(2) obtain steps where
    "stepper_move_steps flag h (Some m) steps direction = Some (h', Some m')"
    by (auto simp: stepper_rotate_degrees_def split: option.splits)
  with assms(1) show ?thesis by (rule move_steps_in_range)
next
  case False
  with assms show ?thesis by (simp add: stepper_rotate_degrees_def)
qed

lemma rotate_multiple_in_range:
  assumes "motors_in_range ms"
    "stepper_rotate_multiple_degrees flag spr h (Some ms) degrees direction = Some (h', Some ms')"
  shows "motors_in_range ms'"
proof (cases "length ms = 0")
  case True
  with assms show ?thesis by (simp add: stepper_rotate_multiple_degrees_def)
next
  case False
  with assms(2) obtain steps where
    r: "rotate_loop flag direction steps h ms = Some (h', ms')"
    by (auto simp: stepper_rotate_multiple_degrees_def split: option.splits)
  from rotate_loop_in_range[OF assms(1), of flag direction steps h] r
  show ?thesis by auto
qed

lemma disable_step:
  "stepper_disable h (Some m) = (h', Some m') \<Longrightarrow> current_step m' = current_step m"
  by (auto simp: stepper_disable_def)

lemma enable_step:
  "stepper_enable h (Some m) = Some (h', Some m') \<Longrightarrow> current_step m' = current_step m"
  by (auto simp: stepper_enable_def stepper_apply_step_def split: option.splits if_splits)

lemma set_speed_step:
  "stepper_set_speed (Some m) delay = Some m' \<Longrightarrow> current_step m' = current_step m"
  by (auto simp: stepper_set_speed_def)

lemma emergency_stop_step:
  assumes "stepper_emergency_stop_all h (Some ms) = (h', Some ms')" "m' \<in> set ms'"
  shows "\<exists>m \<in> set ms. current_step m' = current_step m"
proof -
  from stop_motors_result[of h ms] assms(1)
  have "ms' = map (\<lambda>m. m\<lparr>enabled := False\<rparr>) ms"
    by (auto simp: stepper_emergency_stop_all_def)
  with assms(2) show ?thesis by auto
qed

lemma reachable_in_range: "reachable m \<Longrightarrow> step_in_range m"
proof (induction rule: reachable.induct)
  case (r_init h m0 p1 p2 p3 p4 delay ok h' m)
  from init_result[OF r_init] show ?case by (simp add: step_in_range_def)
next
  case (r_move_steps m flag h steps direction h' m')
  then show ?case using move_steps_in_range by blast
next
  case (r_rotate_degrees m flag spr h degrees direction h' m')
  then show ?case using rotate_degrees_in_range by blast
next
  case (r_rotate_multiple_degrees ms flag spr h degrees direction h' ms' m')
  then have "motors_in_range ms"
    by (auto simp: motors_in_range_def list_all_iff split: option.splits)
  from rotate_multiple_in_range[OF this r_rotate_multiple_degrees(2)] r_rotate_multiple_degrees(3)
  show ?case by (auto simp: motors_in_range_def list_all_iff split: option.splits)
next
  case (r_disable m h h' m')
  from disable_step[OF r_disable(2)] r_disable(3) show ?case by (simp add: step_in_range_def)
next
  case (r_enable m h h' m')
  from enable_step[OF r_enable(2)] r_enable(3) show ?case by (simp add: step_in_range_def)
next
  case (r_set_speed m delay m')
  from set_speed_step[OF r_set_speed(2)] r_set_speed(3) show ?case by (simp add: step_in_range_def)
next
  case (r_emergency_stop_all ms h h' ms' m')
  from emergency_stop_step[OF r_emergency_stop_all(2,3)] r_emergency_stop_all(1)
  show ?case by (auto simp: step_in_range_def)
next
  case (r_handler_enable m)
  then show ?case by (simp add: step_in_range_def)
qed

lemma init_run_motor1:
  "\<exists>h'. stepper_init hw_all_high (Some m0) 2 3 6 7 1 = Some (True, h', Some run_motor1)"
  by (simp add: stepper_init_def stepper_apply_step_def step_pattern_def Let_def run_motor1_def)

section \<open>Stepper driver: the step count\<close>

lemma truncation_towards_zero:
  fixes p :: rat
  assumes "- 1 < p"
  shows "of_nat (nat \<lfloor>p\<rfloor>) \<le> \<bar>p\<bar> \<and> \<bar>p\<bar> < of_nat (nat \<lfloor>p\<rfloor>) + 1"
proof (cases "0 \<le> p")
  case True
  then have f: "0 \<le> \<lfloor>p\<rfloor>" by simp
  then have "(of_nat (nat \<lfloor>p\<rfloor>) :: rat) = of_int \<lfloor>p\<rfloor>" by simp
  moreover have "of_int \<lfloor>p\<rfloor> \<le> p" "p < of_int \<lfloor>p\<rfloor> + 1" by linarith+
  ultimately show ?thesis using True by simp
next
  case False
  then have "\<lfloor>p\<rfloor> < 0" by (simp add: floor_less_iff)
  then have "nat \<lfloor>p\<rfloor> = 0" by simp
  with False assms show ?thesis by simp
qed

lemma degrees_to_steps_truncates:
  assumes "degrees_to_steps spr degrees = Some n"
  shows "\<exists>q s p. f32_round (degrees / 360) = Some q \<and> f32_round (of_nat spr) = Some s
           \<and> f32_round (q * s) = Some p
           \<and> of_nat n \<le> \<bar>p\<bar> \<and> \<bar>p\<bar> < of_nat n + 1"
proof -
  from assms obtain q s p where
    q: "f32_round (degrees / 360) = Some q" and s: "f32_round (of_nat spr) = Some s"
    and p: "f32_round (q * s) = Some p" and b: "- 1 < p" and n: "n = nat \<lfloor>p\<rfloor>"
    by (auto simp: degrees_to_steps_def split: option.splits if_splits)
  from truncation_towards_zero[OF b] q s p n show ?thesis by blast
qed

lemma f32_exact:
  "f32_round (61 / 32768) = Some (61 / 32768)"
  "f32_round 4096 = Some 4096" "f32_round 2048 = Some 2048" "f32_round 512 = Some 512"
  "f32_round (61 / 8) = Some (61 / 8)"
  "f32_round (61 / 16) = Some (61 / 16)"
  "f32_round (61 / 64) = Some (61 / 64)"
  by code_simp+

lemma floor_values:
  "\<lfloor>61 / 8 :: rat\<rfloor> = 7" "\<lfloor>61 / 16 :: rat\<rfloor> = 3" "\<lfloor>61 / 64 :: rat\<rfloor> = 0"
  by code_simp+

lemma round_values:
  "round ((2745 / 4096 :: rat) / 360 * 4096) = 8"
  "round ((2745 / 4096 :: rat) / 360 * 2048) = 4"
  "round ((2745 / 4096 :: rat) / 360 * 512) = 1"
  by code_simp+

lemma f32_one_degree:
  "f32_round (1 / 360) = Some (11930465 / 4294967296)"
  "f32_round (11930465 / 1048576) = Some (11930465 / 1048576)"
  "\<lfloor>11930465 / 1048576 :: rat\<rfloor> = 11"
  by code_simp+

lemma one_degree_steps: "degrees_to_steps 4096 1 = Some 11"
  by (simp add: degrees_to_steps_def f32_one_degree f32_exact)

section \<open>Stepper driver: the hardware trace of a rotation\<close>

lemma sleep_ms_events: "events (sleep_ms n h) = events h @ [SleepMs n]"
  by (simp add: sleep_ms_def)

lemma delay_runs:
  assumes "\<forall>i<d. \<not> flag (flag_reads h + i)"
  shows "events (interruptible_delay flag d h) = events h @ replicate d (SleepMs 1)
       \<and> flag_reads (interruptible_delay flag d h) = flag_reads h + d"
  using assms
proof (induction d arbitrary: h)
  case 0
  then show ?case by (simp add: delay_zero)
next
  case (Suc d)
  let ?h1 = "sleep_ms 1 (snd (read_flag flag h))"
  from Suc.prems have nf: "\<not> flag (flag_reads h)" by force
  have fr: "flag_reads ?h1 = Suc (flag_reads h)"
    by (simp add: sleep_ms_simps read_flag_simps)
  have "\<forall>i<d. \<not> flag (flag_reads ?h1 + i)"
  proof (intro allI impI)
    fix i assume "i < d"
    then have "Suc i < Suc d" by simp
    with Suc.prems have "\<not> flag (flag_reads h + Suc i)" by blast
    then show "\<not> flag (flag_reads ?h1 + i)" by (simp add: sleep_ms_simps read_flag_simps)
  qed
  from Suc.IH[OF this] nf show ?case
    by (simp add: delay_Suc sleep_ms_simps sleep_ms_events read_flag_simps replicate_app_Cons_same)
qed


lemma apply_step_events:
  assumes "0 \<le> s" "s \<le> 7" "enabled m"
  shows "\<exists>h'. stepper_apply_step h m s = Some (h', m\<lparr>current_step := s\<rparr>)
           \<and> flag_reads h' = flag_reads h
           \<and> events h' = events h @ phase_outputs (Some (m\<lparr>current_step := s\<rparr>))"
  using assms
  by (simp add: stepper_apply_step_def step_pattern_def gpio_put_simps phase_outputs_def)

lemma advance_motors_events:
  assumes "motors_in_range ms"
  shows "\<exists>h'. advance_motors h direction ms = Some (h', map (advanced_by direction (Suc 0)) ms)
           \<and> flag_reads h' = flag_reads h
           \<and> events h' = events h @ pass_outputs direction ms (Suc 0)"
  using assms
proof (induction ms arbitrary: h)
  case Nil
  then show ?case by (simp add: pass_outputs_def)
next
  case (Cons mo ms)
  then have rest: "motors_in_range ms" by (simp add: motors_in_range_def)
  show ?case
  proof (cases mo)
    case None
    from Cons.IH[OF rest, of h] None show ?thesis
      by (auto simp: advanced_by_def pass_outputs_def phase_outputs_def)
  next
    case (Some m)
    with Cons.prems have r: "step_in_range m" by (simp add: motors_in_range_def)
    then have cr: "0 \<le> current_step m" "current_step m \<le> 7" by (simp_all add: step_in_range_def)
    show ?thesis
    proof (cases "enabled m")
      case True
      let ?s = "next_step direction (current_step m)"
      let ?m1 = "m\<lparr>current_step := ?s\<rparr>"
      have en: "enabled ?m1" using True by simp
      from apply_step_events[OF next_step_in_range(3)[OF cr, of direction]
          next_step_in_range(4)[OF cr, of direction] en, of h]
      obtain h1 where a: "stepper_apply_step h ?m1 ?s = Some (h1, ?m1)"
        and f1: "flag_reads h1 = flag_reads h"
        and e1: "events h1 = events h @ phase_outputs (Some ?m1)"
        by auto
      from Cons.IH[OF rest, of h1] obtain h' where
        b: "advance_motors h1 direction ms = Some (h', map (advanced_by direction (Suc 0)) ms)"
        and f2: "flag_reads h' = flag_reads h1"
        and e2: "events h' = events h1 @ pass_outputs direction ms (Suc 0)" by blast
      have adv: "advanced_by direction (Suc 0) (Some m) = Some ?m1"
        using advanced_by_one[OF r, of direction] True by simp
      have "advance_motors h direction (mo # ms)
              = Some (h', map (advanced_by direction (Suc 0)) (mo # ms))"
        using a b True Some adv by (simp add: Let_def)
      moreover have "flag_reads h' = flag_reads h" using f1 f2 by simp
      moreover have "events h' = events h @ pass_outputs direction (mo # ms) (Suc 0)"
        using e1 e2 Some adv by (simp add: pass_outputs_def)
      ultimately show ?thesis by blast
    next
      case False
      have adv: "advanced_by direction (Suc 0) (Some m) = Some m"
        using False by (simp add: advanced_by_def)
      from Cons.IH[OF rest, of h] obtain h' where
        b: "advance_motors h direction ms = Some (h', map (advanced_by direction (Suc 0)) ms)"
        and f2: "flag_reads h' = flag_reads h"
        and e2: "events h' = events h @ pass_outputs direction ms (Suc 0)" by blast
      have "advance_motors h direction (mo # ms)
              = Some (h', map (advanced_by direction (Suc 0)) (mo # ms))"
        using b False Some adv by simp
      moreover have "events h' = events h @ pass_outputs direction (mo # ms) (Suc 0)"
        using e2 Some adv False by (simp add: pass_outputs_def phase_outputs_def)
      ultimately show ?thesis using f2 by blast
    qed
  qed
qed

lemma advanced_by_add:
  "advanced_by direction a (advanced_by direction b mo) = advanced_by direction (a + b) mo"
proof (cases mo)
  case None
  then show ?thesis by (simp add: advanced_by_def)
next
  case (Some m)
  have cw: "((current_step m + int b) mod 8 + int a) mod 8 = (current_step m + (int a + int b)) mod 8"
    by (simp add: mod_simps algebra_simps)
  have ccw: "((current_step m - int b) mod 8 - int a) mod 8 = (current_step m - (int a + int b)) mod 8"
    by (simp add: mod_simps algebra_simps)
  from Some cw ccw show ?thesis by (simp add: advanced_by_def)
qed

lemma first_delay_ms_advanced:
  "first_delay_ms (map (advanced_by direction n) ms) = first_delay_ms ms"
proof (induction ms)
  case Nil
  show ?case by simp
next
  case (Cons mo ms)
  then show ?case by (cases mo) (simp_all add: advanced_by_def)
qed

lemma pass_outputs_advanced:
  "pass_outputs direction (map (advanced_by direction j) ms) k = pass_outputs direction ms (k + j)"
  by (simp add: pass_outputs_def comp_def advanced_by_add)

lemma pass_events_advanced:
  "pass_events direction (map (advanced_by direction j) ms) k = pass_events direction ms (k + j)"
  by (simp add: pass_events_def pass_outputs_advanced first_delay_ms_advanced)

lemma run_events_Suc:
  "run_events direction ms (Suc n) = run_events direction ms n @ pass_events direction ms (Suc n)"
  by (simp add: run_events_def)

lemma run_events_zero: "run_events direction ms 0 = []"
  by (simp add: run_events_def)

text \<open>One pass of the rotate loop during which every read of the flag finds it clear.\<close>

lemma rotate_loop_pass:
  assumes r: "motors_in_range ms"
    and nf: "\<forall>i<first_delay_ms ms + 2. \<not> flag (flag_reads h + i)"
  shows "\<exists>h'. rotate_loop flag direction (Suc n) h ms
                = rotate_loop flag direction n h' (map (advanced_by direction (Suc 0)) ms)
           \<and> flag_reads h' = flag_reads h + (first_delay_ms ms + 2)
           \<and> events h' = events h @ pass_events direction ms (Suc 0)"
proof -
  let ?d = "first_delay_ms ms"
  let ?h1 = "snd (read_flag flag h)"
  let ?ms1 = "map (advanced_by direction (Suc 0)) ms"
  from nf have top: "\<not> flag (flag_reads h)" by force
  from advance_motors_events[OF r, of ?h1 direction] obtain h2 where
    a: "advance_motors ?h1 direction ms = Some (h2, ?ms1)"
    and f2: "flag_reads h2 = Suc (flag_reads h)"
    and e2: "events h2 = events h @ pass_outputs direction ms (Suc 0)"
    by (auto simp: read_flag_simps)
  let ?h3 = "first_motor_delay flag ?ms1 h2"
  have h3: "?h3 = interruptible_delay flag ?d h2"
    by (simp add: first_motor_delay_eq first_delay_ms_advanced)
  have "\<forall>i<?d. \<not> flag (flag_reads h2 + i)"
  proof (intro allI impI)
    fix i assume "i < ?d"
    then have "Suc i < ?d + 2" by simp
    with nf have "\<not> flag (flag_reads h + Suc i)" by blast
    then show "\<not> flag (flag_reads h2 + i)" by (simp add: f2)
  qed
  from delay_runs[OF this]
  have e3: "events ?h3 = events h2 @ replicate ?d (SleepMs 1)"
    and f3: "flag_reads ?h3 = flag_reads h2 + ?d"
    by (simp_all add: h3)
  have "\<not> flag (flag_reads h + (?d + 1))" using nf by force
  then have post: "\<not> flag (flag_reads ?h3)" by (simp add: f3 f2)
  let ?h4 = "snd (read_flag flag ?h3)"
  have "rotate_loop flag direction (Suc n) h ms = rotate_loop flag direction n ?h4 ?ms1"
    using top a post by (simp add: read_flag_def)
  moreover have "flag_reads ?h4 = flag_reads h + (?d + 2)"
    by (simp add: read_flag_simps f3 f2)
  moreover have "events ?h4 = events h @ pass_events direction ms (Suc 0)"
    by (simp add: read_flag_simps e3 e2 pass_events_def)
  ultimately show ?thesis by blast
qed

text \<open>The first \<open>j\<close> passes, when every read of the flag in them finds it clear.\<close>

lemma rotate_loop_passes:
  assumes r: "motors_in_range ms"
    and nf: "\<forall>i<j * (first_delay_ms ms + 2). \<not> flag (flag_reads h + i)"
  shows "\<exists>h'. rotate_loop flag direction (j + n) h ms
                = rotate_loop flag direction n h' (map (advanced_by direction j) ms)
           \<and> flag_reads h' = flag_reads h + j * (first_delay_ms ms + 2)
           \<and> events h' = events h @ run_events direction ms j"
  using nf
proof (induction j arbitrary: n)
  case 0
  show ?case using r by (intro exI[of _ h]) (simp add: advanced_by_zero run_events_zero)
next
  case (Suc j)
  let ?d = "first_delay_ms ms"
  let ?msj = "map (advanced_by direction j) ms"
  have "\<forall>i<j * (?d + 2). \<not> flag (flag_reads h + i)"
    using Suc.prems by simp
  from Suc.IH[OF this, of "Suc n"] obtain hj where
    a: "rotate_loop flag direction (j + Suc n) h ms = rotate_loop flag direction (Suc n) hj ?msj"
    and fj: "flag_reads hj = flag_reads h + j * (?d + 2)"
    and ej: "events hj = events h @ run_events direction ms j"
    by blast
  have rj: "motors_in_range ?msj" using r by (rule advanced_by_in_range)
  have "\<forall>i<first_delay_ms ?msj + 2. \<not> flag (flag_reads hj + i)"
  proof (intro allI impI)
    fix i assume "i < first_delay_ms ?msj + 2"
    then have "j * (?d + 2) + i < Suc j * (?d + 2)" by (simp add: first_delay_ms_advanced)
    with Suc.prems have "\<not> flag (flag_reads h + (j * (?d + 2) + i))" by blast
    then show "\<not> flag (flag_reads hj + i)" by (simp add: fj add.assoc)
  qed
  from rotate_loop_pass[OF rj this, of direction n] obtain h' where
    b: "rotate_loop flag direction (Suc n) hj ?msj
          = rotate_loop flag direction n h' (map (advanced_by direction (Suc 0)) ?msj)"
    and f': "flag_reads h' = flag_reads hj + (first_delay_ms ?msj + 2)"
    and e': "events h' = events hj @ pass_events direction ?msj (Suc 0)"
    by blast
  have m: "map (advanced_by direction (Suc 0)) ?msj = map (advanced_by direction (Suc j)) ms"
    by (simp add: comp_def advanced_by_add)
  have "rotate_loop flag direction (Suc j + n) h ms = rotate_loop flag direction (j + Suc n) h ms"
    by (simp only: add_Suc_shift)
  also note a
  also note b
  also note m
  finally have "rotate_loop flag direction (Suc j + n) h ms
          = rotate_loop flag direction n h' (map (advanced_by direction (Suc j)) ms)" .
  moreover have "flag_reads h' = flag_reads h + Suc j * (?d + 2)"
    using f' fj by (simp add: first_delay_ms_advanced)
  moreover have "events h' = events h @ run_events direction ms (Suc j)"
    using e' ej by (simp add: pass_events_advanced run_events_Suc)
  ultimately show ?case by blast
qed

section \<open>Stepper driver: the passes of a rotation that is not cancelled\<close>

lemma phase_outputs_puts:
  "length (filter is_gpio_put (phase_outputs mo))
     = (case mo of None \<Rightarrow> 0 | Some m \<Rightarrow> if enabled m then 4 else 0)"
  by (simp add: phase_outputs_def is_gpio_put_def split: option.splits)

lemma pass_outputs_puts:
  "length (filter is_gpio_put (pass_outputs direction ms k)) = 4 * active_motors ms"
proof (induction ms)
  case Nil
  show ?case by (simp add: pass_outputs_def active_motors_def)
next
  case (Cons mo ms)
  have "length (filter is_gpio_put (phase_outputs (advanced_by direction k mo)))
          = (case mo of None \<Rightarrow> 0 | Some m \<Rightarrow> if enabled m then 4 else 0)"
    by (cases mo) (simp_all add: phase_outputs_puts advanced_by_def)
  with Cons show ?case
    by (cases mo) (simp_all add: pass_outputs_def active_motors_def)
qed

lemma pass_events_puts:
  "length (filter is_gpio_put (pass_events direction ms k)) = 4 * active_motors ms"
  by (simp add: pass_events_def pass_outputs_puts is_gpio_put_def)

lemma run_events_puts:
  "length (filter is_gpio_put (run_events direction ms n)) = n * (4 * active_motors ms)"
  by (induction n) (simp_all add: run_events_zero run_events_Suc pass_events_puts)

text \<open>
  Claim C6, amended. The multi-motor rotate operation computes its step count once, as the
  conversion to \<^verbatim>\<open>uint\<close> of the \<^verbatim>\<open>float\<close> product \<open>(degrees / 360) * steps_per_revolution\<close>:
  the product truncated towards zero, never rounded up. That one count \<open>n\<close> is shared by
  all motors: when the flag reads clear throughout, the operation runs exactly \<open>n\<close> passes,
  each of which advances every present, enabled motor by one step and then waits once. Its
  SDK calls are exactly those of passes 1 to \<open>n\<close> (four \<open>gpio_put\<close> per driven motor
  and pass), it reads the flag \<open>n * (delay + 2)\<close> times, and every driven motor ends \<open>n\<close>
  steps further in the requested direction.
\<close>

theorem rotate_multiple_step_count:
  assumes steps: "degrees_to_steps spr degrees = Some n"
    and nocancel: "\<forall>i<n * (first_delay_ms ms + 2). \<not> flag (flag_reads h + i)"
    and range: "motors_in_range ms"
    and ne: "ms \<noteq> []"
  shows "(\<exists>q s p. f32_round (degrees / 360) = Some q \<and> f32_round (of_nat spr) = Some s
            \<and> f32_round (q * s) = Some p
            \<and> of_nat n \<le> \<bar>p\<bar> \<and> \<bar>p\<bar> < of_nat n + 1)
       \<and> (\<exists>h'. stepper_rotate_multiple_degrees flag spr h (Some ms) degrees direction
                  = Some (h', Some (map (advanced_by direction n) ms))
              \<and> events h' = events h @ run_events direction ms n
              \<and> length (filter is_gpio_put (run_events direction ms n)) = n * (4 * active_motors ms)
              \<and> flag_reads h' = flag_reads h + n * (first_delay_ms ms + 2))"
proof -
  from rotate_loop_passes[OF range nocancel, of direction 0]
  obtain h' where "rotate_loop flag direction n h ms = Some (h', map (advanced_by direction n) ms)"
    and f: "flag_reads h' = flag_reads h + n * (first_delay_ms ms + 2)"
    and e: "events h' = events h @ run_events direction ms n"
    by auto
  then have "stepper_rotate_multiple_degrees flag spr h (Some ms) degrees direction
                = Some (h', Some (map (advanced_by direction n) ms))"
    using steps ne by (simp add: stepper_rotate_multiple_degrees_def)
  with degrees_to_steps_truncates[OF steps] f e run_events_puts[of direction ms n]
  show ?thesis by blast
qed

text \<open>
  Claim C6 says the step count is \<open>round(degrees / 360 * steps_per_revolution)\<close>. For
  \<open>degrees = 0.670166015625\<close> (the \<^verbatim>\<open>float\<close> \<open>2745 / 4096\<close>, for which the quotient and the
  products below are exact) the code computes 7, 3 and 0 steps for 4096, 2048 and 512
  steps per revolution, where rounding gives 8, 4 and 1.
\<close>

theorem step_count_is_not_rounded:
  "degrees_to_steps 4096 (2745 / 4096) = Some 7
   \<and> round ((2745 / 4096 :: rat) / 360 * 4096) = 8
   \<and> degrees_to_steps 2048 (2745 / 4096) = Some 3
   \<and> round ((2745 / 4096 :: rat) / 360 * 2048) = 4
   \<and> degrees_to_steps 512 (2745 / 4096) = Some 0
   \<and> round ((2745 / 4096 :: rat) / 360 * 512) = 1"
proof -
  have "degrees_to_steps 4096 (2745 / 4096) = Some 7"
    "degrees_to_steps 2048 (2745 / 4096) = Some 3"
    "degrees_to_steps 512 (2745 / 4096) = Some 0"
    by (simp_all add: degrees_to_steps_def f32_exact floor_values)
  with round_values show ?thesis by blast
qed

lemma two_motors_in_range: "motors_in_range [Some run_motor1, Some run_motor2]"
  by (simp add: motors_in_range_def step_in_range_def run_motor1_def run_motor2_def)

theorem rotate_multiple_step_count_witness:
  "degrees_to_steps 4096 1 = Some 11
   \<and> motors_in_range [Some run_motor1, Some run_motor2]
   \<and> [Some run_motor1, Some run_motor2] \<noteq> []
   \<and> (\<exists>h'. stepper_rotate_multiple_degrees (\<lambda>k. False) 4096 hw_all_high
               (Some [Some run_motor1, Some run_motor2]) 1 STEPPER_CW
             = Some (h', Some [Some (run_motor1\<lparr>current_step := 3\<rparr>),
                               Some (run_motor2\<lparr>current_step := 3\<rparr>)])
           \<and> events h' = run_events STEPPER_CW [Some run_motor1, Some run_motor2] 11
           \<and> length (filter is_gpio_put (events h')) = 88
           \<and> flag_reads h' = 33)
   \<and> pass_events STEPPER_CW [Some run_motor1, Some run_motor2] 1
       = [GpioPut 2 True, GpioPut 3 True, GpioPut 6 False, GpioPut 7 False,
          GpioPut 10 True, GpioPut 11 True, GpioPut 14 False, GpioPut 15 False, SleepMs 1]"
proof -
  let ?ms = "[Some run_motor1, Some run_motor2]"
  have d: "first_delay_ms ?ms = 1" by (simp add: run_motor1_def)
  have nf: "\<forall>i<11 * (first_delay_ms ?ms + 2). \<not> (\<lambda>k. False) (flag_reads hw_all_high + i)"
    by simp
  have ne: "?ms \<noteq> []" by simp
  have a: "map (advanced_by STEPPER_CW 11) ?ms
             = [Some (run_motor1\<lparr>current_step := 3\<rparr>), Some (run_motor2\<lparr>current_step := 3\<rparr>)]"
    by (simp add: advanced_by_def run_motor1_def run_motor2_def)
  have act: "active_motors ?ms = 2" by (simp add: active_motors_def run_motor1_def run_motor2_def)
  have p: "pass_events STEPPER_CW ?ms 1
       = [GpioPut 2 True, GpioPut 3 True, GpioPut 6 False, GpioPut 7 False,
          GpioPut 10 True, GpioPut 11 True, GpioPut 14 False, GpioPut 15 False, SleepMs 1]"
    by (simp add: pass_events_def pass_outputs_def phase_outputs_def advanced_by_def
        run_motor1_def run_motor2_def step_sequence_def)
  from rotate_multiple_step_count[where direction = STEPPER_CW and h = hw_all_high
      and flag = "\<lambda>k. False", OF one_degree_steps nf two_motors_in_range ne]
  show ?thesis using one_degree_steps two_motors_in_range a act d p
    by (auto simp: hw_all_high_def)
qed

section \<open>Stepper driver: cancellation\<close>






lemma rotate_multiple_loop:
  assumes "degrees_to_steps spr degrees = Some steps" "ms \<noteq> []"
    "rotate_loop flag direction steps h ms = Some (h', ms')"
  shows "stepper_rotate_multiple_degrees flag spr h (Some ms) degrees direction = Some (h', Some ms')"
  using assms by (simp add: stepper_rotate_multiple_degrees_def)






section \<open>Stepper driver: every operation keeps the phase index in the table\<close>

lemma move_loop_whole_passes:
  assumes "step_in_range m" "enabled m"
  shows "\<exists>h' m' i. i \<le> n \<and> move_loop flag direction n h m = Some (h', m')
           \<and> advanced_by direction i (Some m) = Some m'"
  using assms
proof (induction n arbitrary: h m)
  case 0
  have "advanced_by direction 0 (Some m) = Some m"
    using advanced_by_zero[of "[Some m]" direction] "0.prems"(1)
    by (simp add: motors_in_range_def)
  then show ?case by simp
next
  case (Suc n)
  from Suc.prems have cr: "0 \<le> current_step m" "current_step m \<le> 7"
    by (simp_all add: step_in_range_def)
  let ?s = "next_step direction (current_step m)"
  let ?m1 = "m\<lparr>current_step := ?s\<rparr>"
  let ?h1 = "snd (read_flag flag h)"
  have z: "advanced_by direction 0 (Some m) = Some m"
    using advanced_by_zero[of "[Some m]" direction] Suc.prems(1)
    by (simp add: motors_in_range_def)
  have one: "advanced_by direction (Suc 0) (Some m) = Some ?m1"
    using advanced_by_one[OF Suc.prems(1), of direction] Suc.prems(2) by simp
  from apply_step_in_range[OF next_step_in_range(3)[OF cr, of direction]
      next_step_in_range(4)[OF cr, of direction], of ?h1 ?m1]
  obtain h2 where a: "stepper_apply_step ?h1 ?m1 ?s = Some (h2, ?m1)"
    using Suc.prems(2) by auto
  have r1: "step_in_range ?m1" "enabled ?m1"
    using next_step_in_range(3,4)[OF cr, of direction] Suc.prems(2)
    by (simp_all add: step_in_range_def)
  let ?hd = "interruptible_delay flag (step_delay ?m1) h2"
  let ?h3 = "snd (read_flag flag ?hd)"
  show ?case
  proof (cases "flag (flag_reads h)")
    case True
    have "move_loop flag direction (Suc n) h m = Some (?h1, m)"
      using True by (simp add: read_flag_def)
    with z show ?thesis by (intro exI[of _ ?h1] exI[of _ m] exI[of _ 0]) simp
  next
    case False
    show ?thesis
    proof (cases "flag (flag_reads ?hd)")
      case True
      have "move_loop flag direction (Suc n) h m = Some (?h3, ?m1)"
        using False a True by (simp add: read_flag_def Let_def)
      with one show ?thesis by (intro exI[of _ ?h3] exI[of _ ?m1] exI[of _ "Suc 0"]) simp
    next
      case nf: False
      from Suc.IH[OF r1, of ?h3] obtain h' m' i where i: "i \<le> n"
        and b: "move_loop flag direction n ?h3 ?m1 = Some (h', m')"
        and c: "advanced_by direction i (Some ?m1) = Some m'"
        by blast
      have "move_loop flag direction (Suc n) h m = Some (h', m')"
        using False a nf b by (simp add: read_flag_def Let_def)
      moreover have "advanced_by direction (Suc i) (Some m) = Some m'"
        using c advanced_by_Suc[of direction i "Some m"] one by simp
      moreover have "Suc i \<le> Suc n" using i by simp
      ultimately show ?thesis by blast
    qed
  qed
qed

lemma move_loop_one_step:
  assumes "step_in_range m" "enabled m"
  shows "\<exists>h'. move_loop (\<lambda>k. False) direction (Suc 0) h m
            = Some (h', m\<lparr>current_step := next_step direction (current_step m)\<rparr>)"
proof -
  from assms have cr: "0 \<le> current_step m" "current_step m \<le> 7"
    by (simp_all add: step_in_range_def)
  let ?s = "next_step direction (current_step m)"
  let ?m1 = "m\<lparr>current_step := ?s\<rparr>"
  let ?h1 = "snd (read_flag (\<lambda>k. False) h)"
  from apply_step_in_range[OF next_step_in_range(3)[OF cr, of direction]
      next_step_in_range(4)[OF cr, of direction], of ?h1 ?m1]
  obtain h2 where a: "stepper_apply_step ?h1 ?m1 ?s = Some (h2, ?m1)"
    using assms(2) by auto
  then show ?thesis by (simp add: read_flag_def Let_def)
qed

lemma move_steps_one_step:
  assumes "step_in_range m"
  shows "\<exists>h'. stepper_move_steps (\<lambda>k. False) h (Some (m\<lparr>enabled := True\<rparr>)) 1 direction
            = Some (h', Some (m\<lparr>enabled := True,
                                 current_step := next_step direction (current_step m)\<rparr>))"
proof -
  have "step_in_range (m\<lparr>enabled := True\<rparr>)" "enabled (m\<lparr>enabled := True\<rparr>)"
    using assms by (simp_all add: step_in_range_def)
  from move_loop_one_step[OF this, of direction h] show ?thesis
    by (auto simp: stepper_move_steps_def)
qed

lemma move_steps_whole_passes:
  assumes "step_in_range m"
  shows "\<exists>h' m' i. stepper_move_steps flag h (Some m) steps direction = Some (h', Some m')
           \<and> i \<le> steps \<and> advanced_by direction i (Some m) = Some m'"
proof (cases "enabled m")
  case True
  from move_loop_whole_passes[OF assms True, of steps flag direction h] True
  show ?thesis by (auto simp: stepper_move_steps_def)
next
  case False
  then have "stepper_move_steps flag h (Some m) steps direction = Some (h, Some m)"
    "advanced_by direction 0 (Some m) = Some m"
    by (simp_all add: stepper_move_steps_def advanced_by_def)
  then show ?thesis by blast
qed

lemma rotate_degrees_whole_passes:
  assumes "step_in_range m" "degrees_to_steps spr degrees = Some n"
  shows "\<exists>h' m' i. stepper_rotate_degrees flag spr h (Some m) degrees direction = Some (h', Some m')
           \<and> i \<le> n \<and> advanced_by direction i (Some m) = Some m'"
proof (cases "enabled m")
  case True
  from move_steps_whole_passes[OF assms(1), of flag h n direction] True assms(2)
  show ?thesis by (simp add: stepper_rotate_degrees_def)
next
  case False
  then have "stepper_rotate_degrees flag spr h (Some m) degrees direction = Some (h, Some m)"
    "advanced_by direction 0 (Some m) = Some m"
    by (simp_all add: stepper_rotate_degrees_def advanced_by_def)
  then show ?thesis by blast
qed

lemma rotate_multiple_whole_passes:
  assumes "motors_in_range ms" "degrees_to_steps spr degrees = Some n"
  shows "\<exists>h' i. stepper_rotate_multiple_degrees flag spr h (Some ms) degrees direction
              = Some (h', Some (map (advanced_by direction i) ms))
           \<and> i \<le> n"
proof (cases "ms = []")
  case True
  then have "stepper_rotate_multiple_degrees flag spr h (Some ms) degrees direction
              = Some (h, Some (map (advanced_by direction 0) ms))"
    by (simp add: stepper_rotate_multiple_degrees_def)
  then show ?thesis by blast
next
  case False
  from rotate_loop_whole_passes[OF assms(1), of n flag direction h] obtain h' i where
    "i \<le> n" "rotate_loop flag direction n h ms = Some (h', map (advanced_by direction i) ms)"
    by blast
  with rotate_multiple_loop[OF assms(2) False] show ?thesis by blast
qed

lemma enable_in_range:
  assumes "step_in_range m"
  shows "\<exists>h'. stepper_enable h (Some m) = Some (h', Some (m\<lparr>enabled := True\<rparr>))"
  using assms
  by (simp add: stepper_enable_def stepper_apply_step_def step_pattern_def step_in_range_def)

lemma init_returns:
  "\<exists>h'. stepper_init h (Some m0) p1 p2 p3 p4 delay
          = Some (True, h', Some \<lparr>pin1 = p1, pin2 = p2, pin3 = p3, pin4 = p4, step_delay = delay,
                                   current_step = 0, enabled = True\<rparr>)"
  by (simp add: stepper_init_def stepper_apply_step_def step_pattern_def Let_def)

lemma move_loop_no_cancel:
  assumes "step_in_range m" "enabled m"
  shows "\<exists>h' m'. move_loop (\<lambda>k. False) direction n h m = Some (h', m')
           \<and> advanced_by direction n (Some m) = Some m'"
  using assms
proof (induction n arbitrary: h m)
  case 0
  have "advanced_by direction 0 (Some m) = Some m"
    using advanced_by_zero[of "[Some m]" direction] "0.prems"(1)
    by (simp add: motors_in_range_def)
  then show ?case by simp
next
  case (Suc n)
  let ?m1 = "m\<lparr>current_step := next_step direction (current_step m)\<rparr>"
  from move_loop_one_step[OF Suc.prems, of direction h] obtain h1 where
    a: "move_loop (\<lambda>k. False) direction (Suc 0) h m = Some (h1, ?m1)" by blast
  from Suc.prems have cr: "0 \<le> current_step m" "current_step m \<le> 7"
    by (simp_all add: step_in_range_def)
  have r1: "step_in_range ?m1" "enabled ?m1"
    using next_step_in_range(3,4)[OF cr, of direction] Suc.prems(2)
    by (simp_all add: step_in_range_def)
  have one: "advanced_by direction (Suc 0) (Some m) = Some ?m1"
    using advanced_by_one[OF Suc.prems(1), of direction] Suc.prems(2) by simp
  from a obtain h2 where
    b: "stepper_apply_step (snd (read_flag (\<lambda>k. False) h)) ?m1 (next_step direction (current_step m))
          = Some (h2, ?m1)"
    by (auto simp: read_flag_def Let_def stepper_apply_step_def split: option.splits)
  let ?h3 = "snd (read_flag (\<lambda>k. False) (interruptible_delay (\<lambda>k. False) (step_delay ?m1) h2))"
  from Suc.IH[OF r1, of ?h3] obtain h' m' where
    c: "move_loop (\<lambda>k. False) direction n ?h3 ?m1 = Some (h', m')"
    and d: "advanced_by direction n (Some ?m1) = Some m'"
    by blast
  have "move_loop (\<lambda>k. False) direction (Suc n) h m = Some (h', m')"
    using b c by (simp add: read_flag_def Let_def)
  moreover have "advanced_by direction (Suc n) (Some m) = Some m'"
    using d advanced_by_Suc[of direction n "Some m"] one by simp
  ultimately show ?case by blast
qed

lemma move_steps_no_cancel:
  assumes "step_in_range m"
  shows "\<exists>h'. stepper_move_steps (\<lambda>k. False) h (Some m) steps direction
            = Some (h', advanced_by direction steps (Some m))"
proof (cases "enabled m")
  case True
  from move_loop_no_cancel[OF assms True, of direction steps h] True
  show ?thesis by (auto simp: stepper_move_steps_def)
next
  case False
  then show ?thesis by (simp add: stepper_move_steps_def advanced_by_def)
qed

lemma rotate_multiple_no_cancel:
  assumes "motors_in_range ms" "degrees_to_steps spr degrees = Some n"
  shows "\<exists>h'. stepper_rotate_multiple_degrees (\<lambda>k. False) spr h (Some ms) degrees direction
            = Some (h', Some (map (advanced_by direction n) ms))"
proof (cases "ms = []")
  case True
  then show ?thesis by (simp add: stepper_rotate_multiple_degrees_def)
next
  case False
  have "\<forall>i<n * (first_delay_ms ms + 2). \<not> (\<lambda>k. False) (flag_reads h + i)" by simp
  from rotate_loop_passes[OF assms(1) this, of direction 0] obtain h' where
    "rotate_loop (\<lambda>k. False) direction n h ms = Some (h', map (advanced_by direction n) ms)"
    by auto
  from rotate_multiple_loop[OF assms(2) False this] show ?thesis by blast
qed

text \<open>
  Claim C10. \<open>stepper_init\<close> returns with \<open>current_step = 0\<close>. Every motor structure
  \<open>m\<close> produced from \<open>stepper_init\<close> by the driver's operations has
  \<open>0 \<le> current_step \<le> 7\<close>, \<open>stepper_get_position\<close> returns that value (and \<open>-1\<close> for a
  \<^verbatim>\<open>NULL\<close> motor), and every operation on it returns and yields such a structure again:
  one uncancelled step of the enabled motor gives \<open>(current_step + 1) mod 8\<close> clockwise and
  \<open>(current_step - 1 + 8) mod 8\<close> counter-clockwise; with a flag that is never set,
  \<open>stepper_move_steps\<close> and \<open>stepper_rotate_multiple_degrees\<close> return with every driven
  motor exactly the requested number of steps on, modulo 8; \<open>stepper_move_steps\<close>,
  \<open>stepper_rotate_degrees\<close> and \<open>stepper_rotate_multiple_degrees\<close>, cancelled or not, return
  with the motor a whole number of steps on, at most the number requested, modulo 8;
  \<open>stepper_disable\<close>, \<open>stepper_enable\<close>, \<open>stepper_set_speed\<close> and
  \<open>stepper_emergency_stop_all\<close> return with \<open>current_step\<close> unchanged (the last on any
  array).
\<close>

theorem current_step_stays_in_range:
  assumes r: "reachable m"
    and rs: "list_all (\<lambda>mo. case mo of None \<Rightarrow> True | Some mm \<Rightarrow> reachable mm) ms"
    and conv: "degrees_to_steps spr degrees = Some n"
  shows "(\<exists>h'. stepper_init h (Some m0) p1 p2 p3 p4 delay
                 = Some (True, h', Some \<lparr>pin1 = p1, pin2 = p2, pin3 = p3, pin4 = p4,
                                          step_delay = delay, current_step = 0, enabled = True\<rparr>))
       \<and> 0 \<le> current_step m \<and> current_step m \<le> 7
       \<and> stepper_get_position (Some m) = current_step m
       \<and> stepper_get_position None = - 1
       \<and> (\<exists>h'. stepper_move_steps (\<lambda>k. False) h (Some (m\<lparr>enabled := True\<rparr>)) 1 STEPPER_CW
                 = Some (h', Some (m\<lparr>enabled := True,
                                      current_step := (current_step m + 1) mod 8\<rparr>)))
       \<and> (\<exists>h'. stepper_move_steps (\<lambda>k. False) h (Some (m\<lparr>enabled := True\<rparr>)) 1 STEPPER_CCW
                 = Some (h', Some (m\<lparr>enabled := True,
                                      current_step := (current_step m - 1 + 8) mod 8\<rparr>)))
       \<and> (\<exists>h'. stepper_move_steps (\<lambda>k. False) h (Some m) steps direction
                 = Some (h', advanced_by direction steps (Some m)))
       \<and> (\<exists>h'. stepper_rotate_multiple_degrees (\<lambda>k. False) spr h (Some ms) degrees direction
                 = Some (h', Some (map (advanced_by direction n) ms)))
       \<and> (\<exists>h' m' i. stepper_move_steps flag h (Some m) steps direction = Some (h', Some m')
              \<and> i \<le> steps \<and> advanced_by direction i (Some m) = Some m'
              \<and> 0 \<le> current_step m' \<and> current_step m' \<le> 7 \<and> reachable m')
       \<and> (\<exists>h' m' i. stepper_rotate_degrees flag spr h (Some m) degrees direction = Some (h', Some m')
              \<and> i \<le> n \<and> advanced_by direction i (Some m) = Some m'
              \<and> 0 \<le> current_step m' \<and> current_step m' \<le> 7 \<and> reachable m')
       \<and> (\<exists>h' i. stepper_rotate_multiple_degrees flag spr h (Some ms) degrees direction
                   = Some (h', Some (map (advanced_by direction i) ms))
              \<and> i \<le> n \<and> motors_in_range (map (advanced_by direction i) ms))
       \<and> (\<exists>h'. stepper_disable h (Some m) = (h', Some (m\<lparr>enabled := False\<rparr>)))
       \<and> (\<exists>h'. stepper_enable h (Some m) = Some (h', Some (m\<lparr>enabled := True\<rparr>)))
       \<and> stepper_set_speed (Some m) ms_delay = Some (m\<lparr>step_delay := ms_delay\<rparr>)
       \<and> (\<exists>h'. stepper_emergency_stop_all h (Some stopped)
                 = (h', Some (map (\<lambda>mm. mm\<lparr>enabled := False\<rparr>) stopped)))"
proof -
  from reachable_in_range[OF r] have ir: "step_in_range m" .
  then have cr: "0 \<le> current_step m" "current_step m \<le> 7" by (simp_all add: step_in_range_def)
  have p_init: "\<exists>h'. stepper_init h (Some m0) p1 p2 p3 p4 delay
                 = Some (True, h', Some \<lparr>pin1 = p1, pin2 = p2, pin3 = p3, pin4 = p4,
                                          step_delay = delay, current_step = 0, enabled = True\<rparr>)"
    by (rule init_returns)
  have p_pos: "stepper_get_position (Some m) = current_step m" "stepper_get_position None = - 1"
    by (simp_all add: stepper_get_position_def)
  have p_cw: "\<exists>h'. stepper_move_steps (\<lambda>k. False) h (Some (m\<lparr>enabled := True\<rparr>)) 1 STEPPER_CW
                 = Some (h', Some (m\<lparr>enabled := True,
                                      current_step := (current_step m + 1) mod 8\<rparr>))"
    using move_steps_one_step[OF ir, of h STEPPER_CW] next_step_in_range(1)[OF cr] by simp
  have p_ccw: "\<exists>h'. stepper_move_steps (\<lambda>k. False) h (Some (m\<lparr>enabled := True\<rparr>)) 1 STEPPER_CCW
                 = Some (h', Some (m\<lparr>enabled := True,
                                      current_step := (current_step m - 1 + 8) mod 8\<rparr>))"
    using move_steps_one_step[OF ir, of h STEPPER_CCW] next_step_in_range(2)[OF cr] by simp
  have p_all: "\<exists>h'. stepper_move_steps (\<lambda>k. False) h (Some m) steps direction
                 = Some (h', advanced_by direction steps (Some m))"
    using ir by (rule move_steps_no_cancel)
  have mr: "motors_in_range ms"
    unfolding motors_in_range_def
    using rs reachable_in_range by (auto simp: list_all_iff split: option.splits)
  have p_multi_all: "\<exists>h'. stepper_rotate_multiple_degrees (\<lambda>k. False) spr h (Some ms) degrees direction
                 = Some (h', Some (map (advanced_by direction n) ms))"
    using mr conv by (rule rotate_multiple_no_cancel)
  have p_move: "\<exists>h' m' i. stepper_move_steps flag h (Some m) steps direction = Some (h', Some m')
              \<and> i \<le> steps \<and> advanced_by direction i (Some m) = Some m'
              \<and> 0 \<le> current_step m' \<and> current_step m' \<le> 7 \<and> reachable m'"
  proof -
    from move_steps_whole_passes[OF ir, of flag h steps direction] obtain h' m' i where
      a: "stepper_move_steps flag h (Some m) steps direction = Some (h', Some m')"
      and i: "i \<le> steps" and b: "advanced_by direction i (Some m) = Some m'"
      by blast
    from reachable.r_move_steps[OF r a] have r': "reachable m'" .
    from reachable_in_range[OF r'] have "0 \<le> current_step m'" "current_step m' \<le> 7"
      by (simp_all add: step_in_range_def)
    with a i b r' show ?thesis by blast
  qed
  have p_rot: "\<exists>h' m' i. stepper_rotate_degrees flag spr h (Some m) degrees direction = Some (h', Some m')
              \<and> i \<le> n \<and> advanced_by direction i (Some m) = Some m'
              \<and> 0 \<le> current_step m' \<and> current_step m' \<le> 7 \<and> reachable m'"
  proof -
    from rotate_degrees_whole_passes[OF ir conv, of flag h direction] obtain h' m' i where
      a: "stepper_rotate_degrees flag spr h (Some m) degrees direction = Some (h', Some m')"
      and i: "i \<le> n" and b: "advanced_by direction i (Some m) = Some m'"
      by blast
    from reachable.r_rotate_degrees[OF r a] have r': "reachable m'" .
    from reachable_in_range[OF r'] have "0 \<le> current_step m'" "current_step m' \<le> 7"
      by (simp_all add: step_in_range_def)
    with a i b r' show ?thesis by blast
  qed
  have p_multi: "\<exists>h' i. stepper_rotate_multiple_degrees flag spr h (Some ms) degrees direction
                   = Some (h', Some (map (advanced_by direction i) ms))
              \<and> i \<le> n \<and> motors_in_range (map (advanced_by direction i) ms)"
    using rotate_multiple_whole_passes[OF mr conv, of flag h direction]
      advanced_by_in_range[OF mr, of direction]
    by blast
  have p_dis: "\<exists>h'. stepper_disable h (Some m) = (h', Some (m\<lparr>enabled := False\<rparr>))"
    by (simp add: stepper_disable_def)
  have p_en: "\<exists>h'. stepper_enable h (Some m) = Some (h', Some (m\<lparr>enabled := True\<rparr>))"
    using ir by (rule enable_in_range)
  have p_speed: "stepper_set_speed (Some m) ms_delay = Some (m\<lparr>step_delay := ms_delay\<rparr>)"
    by (simp add: stepper_set_speed_def)
  have p_stop: "\<exists>h'. stepper_emergency_stop_all h (Some stopped)
                 = (h', Some (map (\<lambda>mm. mm\<lparr>enabled := False\<rparr>) stopped))"
    using stop_motors_result[of h stopped] by (auto simp: stepper_emergency_stop_all_def)
  from p_init cr p_pos p_cw p_ccw p_all p_multi_all p_move p_rot p_multi p_dis p_en p_speed p_stop
  show ?thesis by blast
qed

theorem current_step_stays_in_range_witness:
  "reachable (run_motor1\<lparr>current_step := 7\<rparr>)
   \<and> list_all (\<lambda>mo. case mo of None \<Rightarrow> True | Some mm \<Rightarrow> reachable mm)
        [Some (run_motor1\<lparr>current_step := 7\<rparr>), None]
   \<and> degrees_to_steps 4096 1 = Some 11
   \<and> stepper_get_position (Some (run_motor1\<lparr>current_step := 7\<rparr>)) = 7
   \<and> (\<exists>h'. stepper_move_steps (\<lambda>k. False) hw_all_high (Some (run_motor1\<lparr>current_step := 7\<rparr>))
              1 STEPPER_CW
            = Some (h', Some (run_motor1\<lparr>current_step := 0\<rparr>)))
   \<and> (\<exists>h'. stepper_move_steps (\<lambda>k. False) hw_all_high (Some (run_motor1\<lparr>current_step := 7\<rparr>))
              1 STEPPER_CCW
            = Some (h', Some (run_motor1\<lparr>current_step := 6\<rparr>)))
   \<and> (\<exists>h'. stepper_enable hw_all_high (Some (run_motor1\<lparr>current_step := 7\<rparr>))
            = Some (h', Some (run_motor1\<lparr>current_step := 7\<rparr>)))"
proof -
  let ?m = "run_motor1\<lparr>current_step := 7\<rparr>"
  from init_run_motor1[of run_motor1] obtain h0 where
    "stepper_init hw_all_high (Some run_motor1) 2 3 6 7 1 = Some (True, h0, Some run_motor1)"
    by blast
  then have r0: "reachable run_motor1" by (rule reachable.r_init)
  have ir0: "step_in_range run_motor1" by (simp add: step_in_range_def run_motor1_def)
  have s0: "run_motor1\<lparr>current_step := next_step STEPPER_CCW (current_step run_motor1)\<rparr> = ?m"
    by (simp add: run_motor1_def next_step_def c_rem_def)
  have e0: "run_motor1\<lparr>enabled := True\<rparr> = run_motor1" by (simp add: run_motor1_def)
  from move_steps_one_step[OF ir0, of hw_all_high STEPPER_CCW, unfolded e0 s0] obtain h1 where
    "stepper_move_steps (\<lambda>k. False) hw_all_high (Some run_motor1) 1 STEPPER_CCW = Some (h1, Some ?m)"
    by blast
  with r0 have r: "reachable ?m" by (rule reachable.r_move_steps)
  then have rs: "list_all (\<lambda>mo. case mo of None \<Rightarrow> True | Some mm \<Rightarrow> reachable mm) [Some ?m, None]"
    by simp
  have e: "?m\<lparr>enabled := True\<rparr> = ?m"
    by (simp add: run_motor1_def)
  have e': "?m\<lparr>current_step := (current_step ?m + 1) mod 8\<rparr> = run_motor1\<lparr>current_step := 0\<rparr>"
    "?m\<lparr>current_step := (current_step ?m - 1 + 8) mod 8\<rparr> = run_motor1\<lparr>current_step := 6\<rparr>"
    by simp_all
  have c: "current_step ?m = 7" by simp
  note w = current_step_stays_in_range[OF r rs one_degree_steps, where h = hw_all_high]
  have g: "stepper_get_position (Some ?m) = 7" using w c by simp
  have cw: "\<exists>h'. stepper_move_steps (\<lambda>k. False) hw_all_high (Some ?m) 1 STEPPER_CW
            = Some (h', Some (run_motor1\<lparr>current_step := 0\<rparr>))"
    using w[unfolded e e'] by blast
  have ccw: "\<exists>h'. stepper_move_steps (\<lambda>k. False) hw_all_high (Some ?m) 1 STEPPER_CCW
            = Some (h', Some (run_motor1\<lparr>current_step := 6\<rparr>))"
    using w[unfolded e e'] by blast
  have en: "\<exists>h'. stepper_enable hw_all_high (Some ?m) = Some (h', Some ?m)"
    using w[unfolded e e'] by blast
  from r rs one_degree_steps g cw ccw en show ?thesis by blast
qed


end
